theory Spec2Isabelle
  imports Complex_Main "HOL-Library.AList"
begin

section \<open>Data model (types.d.ts)\<close>

text \<open>
  The rules engine of \<^verbatim>\<open>dist/rules-engine.js\<close>, embedded function by function.
  JavaScript numbers that the engine uses as counters, seconds and milliseconds are
  integers (\<^typ>\<open>int\<close>); similarity scores are rationals. An optional field
  (\<^verbatim>\<open>content?: string[]\<close>) is an \<^typ>\<open>'a option\<close>, with \<^term>\<open>None\<close> for
  \<^verbatim>\<open>undefined\<close>. Field names are those of the source, with a suffix where two
  interfaces share a name or the name is a HOL constant.
\<close>

datatype RuleAction = Allow | Block | Flag | Alert | Sanitize | Set_flag | Pass

datatype RuleSeverity = Low | Medium | High | Critical

datatype RuleCategory =
  Sql_injection | Xss | Command_injection | Prompt_injection | Phishing | Malware | Spam
  | Credential_harvesting | Social_engineering | Impersonation | Malicious_url | Privacy
  | Financial_scam | Unknown

record RuleFlags =
  set_fl :: "string list option"
  unset_fl :: "string list option"
  check_fl :: "string list option"
  ttl_fl :: "int option"

record Rule =
  id_rule :: string
  content :: "string list option"
  pcre :: "string list option"
  semantic :: "string list option"
  semanticThreshold :: "rat option"
  flags :: "RuleFlags option"
  threshold :: "int option"
  window :: "int option"
  category :: RuleCategory
  severity :: RuleSeverity
  action :: RuleAction
  enabled :: bool
  nocase :: "bool option"

datatype HistoryAction = SetAction | UnsetAction

record FlagHistoryEntry =
  flag_h :: string
  action_h :: HistoryAction
  ruleId_h :: string
  timestamp_h :: int

text \<open>
  Conversation states, their \<^verbatim>\<open>flags\<close> objects and their \<^verbatim>\<open>flagHistory\<close>
  arrays are JavaScript objects: the engine hands references to them to its caller (in
  the results), keeps references in the state cache, and writes into flags objects and
  history arrays in place. They live in an explicit store; a reference is an address.
  The flags object is an association list in insertion order.
\<close>

type_synonym ref = nat

record ConversationState =
  id_state :: string
  tokenId_state :: string
  conversationId_state :: string
  accountId_state :: "string option"
  flags_state :: ref
  flagHistory_state :: ref
  expiresAt :: int
  createdAt :: int
  updatedAt :: int

record Heap =
  flagsObjs :: "ref \<Rightarrow> (string \<times> bool) list"
  historyArrs :: "ref \<Rightarrow> FlagHistoryEntry list"
  stateObjs :: "ref \<Rightarrow> ConversationState"
  nextRef :: ref

record EvaluationContext =
  tokenId :: string
  conversationId :: string
  accountId :: "string option"
  message :: string
  state_ctx :: "ref option"

record EvaluationResult =
  matched :: bool
  rule :: Rule
  action_res :: "RuleAction option"
  state_res :: "ref option"
  reason :: "string option"
  evalTimeMs :: int
  similarity :: "rat option"
  matchedPattern :: "string option"

datatype js_error = SyntaxError string | Rejected string

section \<open>JavaScript primitives used by the engine\<close>

text \<open>\<^verbatim>\<open>!x\<close> and \<^verbatim>\<open>x || d\<close> on an optional number: \<^verbatim>\<open>undefined\<close> and \<^verbatim>\<open>0\<close> are falsy.\<close>

definition falsy_num :: "int option \<Rightarrow> bool" where
  "falsy_num x = (case x of None \<Rightarrow> True | Some v \<Rightarrow> v = 0)"

definition or_num :: "int option \<Rightarrow> int \<Rightarrow> int" where
  "or_num x d = (case x of None \<Rightarrow> d | Some v \<Rightarrow> if v = 0 then d else v)"

definition or_rat :: "rat option \<Rightarrow> rat \<Rightarrow> rat" where
  "or_rat x d = (case x of None \<Rightarrow> d | Some v \<Rightarrow> if v = 0 then d else v)"

text \<open>\<^verbatim>\<open>accountId || ''\<close>: an absent and an empty account id both give the empty string.\<close>

definition or_empty :: "string option \<Rightarrow> string" where
  "or_empty x = (case x of None \<Rightarrow> [] | Some s \<Rightarrow> s)"

text \<open>\<^verbatim>\<open>!matchedPattern\<close>: \<^verbatim>\<open>undefined\<close> and the empty string are falsy.\<close>

definition falsy_str :: "string option \<Rightarrow> bool" where
  "falsy_str x = (case x of None \<Rightarrow> True | Some s \<Rightarrow> s = [])"

text \<open>\<^verbatim>\<open>String.prototype.toLowerCase\<close> on the ASCII letters; other bytes are kept.\<close>

definition lower_char :: "char \<Rightarrow> char" where
  "lower_char c =
     (case map_of (zip ''ABCDEFGHIJKLMNOPQRSTUVWXYZ'' ''abcdefghijklmnopqrstuvwxyz'') c of
        None \<Rightarrow> c
      | Some l \<Rightarrow> l)"

definition toLowerCase :: "string \<Rightarrow> string" where
  "toLowerCase s = map lower_char s"

text \<open>\<^verbatim>\<open>s.includes(k)\<close>: \<open>k\<close> occurs in \<open>s\<close> as a contiguous substring.\<close>

fun starts_with :: "string \<Rightarrow> string \<Rightarrow> bool" where
  "starts_with s [] = True"
| "starts_with [] (k # ks) = False"
| "starts_with (c # cs) (k # ks) = (c = k \<and> starts_with cs ks)"

fun includes_str :: "string \<Rightarrow> string \<Rightarrow> bool" where
  "includes_str [] k = (k = [])"
| "includes_str (c # cs) k = (starts_with (c # cs) k \<or> includes_str cs k)"

text \<open>\<^verbatim>\<open>xs.join(', ')\<close>.\<close>

fun join :: "string list \<Rightarrow> string" where
  "join [] = []"
| "join [x] = x"
| "join (x # y # ys) = x @ '', '' @ join (y # ys)"

text \<open>A number inside a template literal: the decimal numeral of an integer.\<close>

fun digits :: "nat \<Rightarrow> string" where
  "digits n =
     (if n < 10 then [''0123456789'' ! n]
      else digits (n div 10) @ [''0123456789'' ! (n mod 10)])"

definition num_to_string :: "int \<Rightarrow> string" where
  "num_to_string i = (if i < 0 then CHR ''-'' # digits (nat (- i)) else digits (nat i))"

definition template_num :: "int option \<Rightarrow> string" where
  "template_num x = (case x of None \<Rightarrow> ''undefined'' | Some i \<Rightarrow> num_to_string i)"

section \<open>ThresholdTracker\<close>

record TrackerEntry =
  count :: int
  firstMatch :: int
  windowEnd :: int

type_synonym Trackers = "string \<rightharpoonup> (string \<rightharpoonup> TrackerEntry)"

text \<open>\<^verbatim>\<open>`${tokenId}:${conversationId}:${accountId || ''}`\<close>, the key of both the state
  cache and the threshold tracker.\<close>

definition getKey :: "string \<Rightarrow> string \<Rightarrow> string option \<Rightarrow> string" where
  "getKey tok conv acct = tok @ '':'' @ conv @ '':'' @ or_empty acct"

text \<open>
  \<^verbatim>\<open>ThresholdTracker.check\<close>. \<open>now\<close> is the value \<^verbatim>\<open>Date.now()\<close> returns in the
  call. The result is the returned boolean and the tracker map after the call.
\<close>

definition fresh_entry :: "int \<Rightarrow> int \<Rightarrow> TrackerEntry" where
  "fresh_entry now w = \<lparr>count = 1, firstMatch = now, windowEnd = now + w * 1000\<rparr>"

definition ThresholdTracker_check ::
  "int \<Rightarrow> Rule \<Rightarrow> string \<Rightarrow> string \<Rightarrow> string option \<Rightarrow> Trackers \<Rightarrow> bool \<times> Trackers" where
  "ThresholdTracker_check now r tok conv acct trackers =
     (if falsy_num (threshold r) \<or> falsy_num (window r) then (True, trackers)
      else
        let key = getKey tok conv acct;
            conversationTrackers = (case trackers key of None \<Rightarrow> Map.empty | Some m \<Rightarrow> m);
            w = or_num (window r) 0;
            created = (threshold r = Some 1,
                       trackers(key \<mapsto> conversationTrackers(id_rule r \<mapsto> fresh_entry now w)))
        in case conversationTrackers (id_rule r) of
             None \<Rightarrow> created
           | Some entry \<Rightarrow>
               if now > windowEnd entry then created
               else
                 let entry' = entry\<lparr>count := count entry + 1\<rparr>
                 in if count entry' \<ge> or_num (threshold r) 0
                    then (True, trackers(key \<mapsto> conversationTrackers(id_rule r := None)))
                    else (False, trackers(key \<mapsto> conversationTrackers(id_rule r \<mapsto> entry'))))"

section \<open>StateCache\<close>

text \<open>
  The cache is a JavaScript \<^verbatim>\<open>Map\<close>: an association list in insertion order.
  \<^verbatim>\<open>Map.set\<close> replaces the value of a key in place or appends a new key
  (\<^const>\<open>AList.update\<close>), \<^verbatim>\<open>Map.delete\<close> removes the key
  (\<^const>\<open>AList.delete\<close>), \<^verbatim>\<open>Map.size\<close> is the length of the list. The write
  queue is a \<^verbatim>\<open>Set\<close> in insertion order; \<open>writeBatchTimer\<close> tells whether a
  flush is scheduled.
\<close>

record CacheEntry =
  state_ce :: ref
  lastAccess :: int
  dirty :: bool

record StateCache =
  cache :: "(string \<times> CacheEntry) list"
  maxSize :: nat
  ttl_cache :: int
  writeQueue :: "string list"
  writeBatchTimer :: bool

definition new_StateCache :: StateCache where
  "new_StateCache =
     \<lparr>cache = [], maxSize = 10000, ttl_cache = 300000, writeQueue = [], writeBatchTimer = False\<rparr>"

definition StateCache_get ::
  "int \<Rightarrow> string \<Rightarrow> string \<Rightarrow> string option \<Rightarrow> StateCache \<Rightarrow> ref option \<times> StateCache" where
  "StateCache_get now tok conv acct sc =
     (let key = getKey tok conv acct
      in case map_of (cache sc) key of
           None \<Rightarrow> (None, sc)
         | Some cached \<Rightarrow>
             if now - lastAccess cached < ttl_cache sc
             then (Some (state_ce cached),
                   sc\<lparr>cache := AList.update key (cached\<lparr>lastAccess := now\<rparr>) (cache sc)\<rparr>)
             else (None, sc))"

text \<open>The first entry of the entries sorted (stably) by \<open>lastAccess\<close>.\<close>

definition oldest :: "(string \<times> CacheEntry) list \<Rightarrow> (string \<times> CacheEntry) option" where
  "oldest entries =
     (case sort_key (\<lambda>e. lastAccess (snd e)) entries of [] \<Rightarrow> None | e # _ \<Rightarrow> Some e)"

definition StateCache_set ::
  "int \<Rightarrow> string \<Rightarrow> string \<Rightarrow> ref \<Rightarrow> string option \<Rightarrow> StateCache \<Rightarrow> StateCache" where
  "StateCache_set now tok conv st acct sc =
     (let key = getKey tok conv acct;
          evicted =
            (if length (cache sc) \<ge> maxSize sc
             then (case oldest (cache sc) of
                     None \<Rightarrow> cache sc
                   | Some e \<Rightarrow> AList.delete (fst e) (cache sc))
             else cache sc)
      in sc\<lparr>cache :=
              AList.update key \<lparr>state_ce = st, lastAccess = now, dirty = False\<rparr> evicted\<rparr>)"

definition scheduleBatchWrite :: "StateCache \<Rightarrow> StateCache" where
  "scheduleBatchWrite sc = (if writeBatchTimer sc then sc else sc\<lparr>writeBatchTimer := True\<rparr>)"

definition markDirty :: "string \<Rightarrow> string \<Rightarrow> string option \<Rightarrow> StateCache \<Rightarrow> StateCache" where
  "markDirty tok conv acct sc =
     (let key = getKey tok conv acct
      in case map_of (cache sc) key of
           None \<Rightarrow> sc
         | Some cached \<Rightarrow>
             scheduleBatchWrite
               (sc\<lparr>cache := AList.update key (cached\<lparr>dirty := True\<rparr>) (cache sc),
                   writeQueue := (if key \<in> set (writeQueue sc) then writeQueue sc
                                  else writeQueue sc @ [key])\<rparr>))"

definition flushWrites :: "StateCache \<Rightarrow> StateCache" where
  "flushWrites sc = sc\<lparr>writeQueue := []\<rparr>"

text \<open>The callback that \<^verbatim>\<open>scheduleBatchWrite\<close> hands to \<^verbatim>\<open>setTimeout\<close>.\<close>

definition batchTimer_fires :: "StateCache \<Rightarrow> StateCache" where
  "batchTimer_fires sc = (flushWrites sc)\<lparr>writeBatchTimer := False\<rparr>"

definition StateCache_clear :: "StateCache \<Rightarrow> StateCache" where
  "StateCache_clear sc = sc\<lparr>cache := [], writeQueue := []\<rparr>"

section \<open>RegexCache\<close>

text \<open>
  The regular-expression engine belongs to the JavaScript runtime, not to the
  repository: it is a parameter. \<open>RegExp_new pattern flags\<close> is \<^term>\<open>None\<close> when
  \<^verbatim>\<open>new RegExp(pattern, flags)\<close> throws its \<^verbatim>\<open>SyntaxError\<close>;
  \<open>RegExp_exec regex message\<close> is \<^verbatim>\<open>regex.exec(message)\<close> started at
  \<^verbatim>\<open>lastIndex = 0\<close> (the engine resets it before every use), giving \<^verbatim>\<open>match[0]\<close>
  or \<^term>\<open>None\<close> for \<^verbatim>\<open>null\<close>. \<open>toFixed1 x\<close> is \<^verbatim>\<open>x.toFixed(1)\<close>.
\<close>

record 'rx Runtime =
  RegExp_new :: "string \<Rightarrow> string \<Rightarrow> 'rx option"
  RegExp_exec :: "'rx \<Rightarrow> string \<Rightarrow> string option"
  toFixed1 :: "rat \<Rightarrow> string"

definition RegexCache_get ::
  "'rx Runtime \<Rightarrow> string \<Rightarrow> string \<Rightarrow> (string \<rightharpoonup> 'rx) \<Rightarrow> (js_error + 'rx) \<times> (string \<rightharpoonup> 'rx)" where
  "RegexCache_get rt pattern fl rc =
     (let key = pattern @ '':'' @ fl
      in case rc key of
           Some regex \<Rightarrow> (Inr regex, rc)
         | None \<Rightarrow>
             (case RegExp_new rt pattern fl of
                None \<Rightarrow> (Inl (SyntaxError pattern), rc)
              | Some regex \<Rightarrow> (Inr regex, rc(key \<mapsto> regex))))"

section \<open>RulesEngine\<close>

text \<open>
  The two collaborators given to the constructor are fields of the engine.
  \<open>queryRules\<close> of the semantic matcher returns the matches (rule and similarity) or
  rejects. A state provider returns a reference to a stored state, \<^verbatim>\<open>null\<close>
  (\<^term>\<open>None\<close>), or rejects; \<open>provider_save\<close> tells whether saving a state rejects.
  The states handed to \<^verbatim>\<open>save\<close> are logged in \<open>saved\<close>.
\<close>

record StateProvider =
  provider_get :: "string \<Rightarrow> string \<Rightarrow> string option \<Rightarrow> js_error + ref option"
  provider_save :: "ref \<Rightarrow> js_error option"

record 'rx RulesEngine =
  rules :: "Rule list"
  stateCache :: StateCache
  regexCache :: "string \<rightharpoonup> 'rx"
  thresholdTracker :: Trackers
  semanticMatcher :: "(string \<Rightarrow> rat \<Rightarrow> js_error + (Rule \<times> rat) list) option"
  stateProvider :: "StateProvider option"

text \<open>The engine together with the object store and the log of saved states. A new
  engine starts with an empty store.\<close>

record 'rx World = "'rx RulesEngine" +
  heap :: Heap
  saved :: "ref list"

definition no_state :: ConversationState where
  "no_state = \<lparr>id_state = [], tokenId_state = [], conversationId_state = [],
                accountId_state = None, flags_state = 0, flagHistory_state = 0,
                expiresAt = 0, createdAt = 0, updatedAt = 0\<rparr>"

definition empty_heap :: Heap where
  "empty_heap = \<lparr>flagsObjs = (\<lambda>_. []), historyArrs = (\<lambda>_. []), stateObjs = (\<lambda>_. no_state),
                  nextRef = 0\<rparr>"

definition new_RulesEngine ::
  "(string \<Rightarrow> rat \<Rightarrow> js_error + (Rule \<times> rat) list) option \<Rightarrow> StateProvider option
     \<Rightarrow> 'rx World" where
  "new_RulesEngine matcher provider =
     \<lparr>rules = [], stateCache = new_StateCache, regexCache = Map.empty,
      thresholdTracker = Map.empty, semanticMatcher = matcher, stateProvider = provider,
      heap = empty_heap, saved = []\<rparr>"

subsection \<open>loadRules and getRulePriority\<close>

definition actionPriority :: "RuleAction \<Rightarrow> int option" where
  "actionPriority a =
     (case a of Pass \<Rightarrow> Some 0 | Set_flag \<Rightarrow> Some 1 | Flag \<Rightarrow> Some 2 | Alert \<Rightarrow> Some 3
      | Block \<Rightarrow> Some 4 | _ \<Rightarrow> None)"

text \<open>An array is truthy whether or not it is empty: \<^verbatim>\<open>rule.content ? 1 : 0\<close>.\<close>

definition getRulePriority :: "Rule \<Rightarrow> int" where
  "getRulePriority r =
     (let typeCost = (if content r \<noteq> None then 1 else 0) + (if pcre r \<noteq> None then 2 else 0)
                     + (if semantic r \<noteq> None then 3 else 0) + (if flags r \<noteq> None then 4 else 0);
          actionValue = or_num (actionPriority (action r)) 5
      in actionValue * 10 + typeCost)"

text \<open>\<^verbatim>\<open>Array.prototype.sort\<close> is stable, as \<^const>\<open>sort_key\<close> is.\<close>

definition loadRules :: "Rule list \<Rightarrow> 'rx World \<Rightarrow> 'rx World" where
  "loadRules rs w = w\<lparr>rules := sort_key getRulePriority (filter enabled rs)\<rparr>"

definition getRuleCount :: "'rx World \<Rightarrow> nat" where
  "getRuleCount w = length (rules w)"

subsection \<open>The object store\<close>

text \<open>
  Object, array and spread literals allocate: the new object gets the next free
  address. Writing a property of a flags object and pushing onto a history array
  change the object at the address they are given. Before any allocation the store
  holds nothing below \<open>nextRef\<close> = 0.
\<close>

definition alloc_flags :: "(string \<times> bool) list \<Rightarrow> Heap \<Rightarrow> ref \<times> Heap" where
  "alloc_flags obj h =
     (nextRef h, h\<lparr>flagsObjs := (flagsObjs h)(nextRef h := obj), nextRef := nextRef h + 1\<rparr>)"

definition alloc_history :: "FlagHistoryEntry list \<Rightarrow> Heap \<Rightarrow> ref \<times> Heap" where
  "alloc_history arr h =
     (nextRef h, h\<lparr>historyArrs := (historyArrs h)(nextRef h := arr), nextRef := nextRef h + 1\<rparr>)"

definition alloc_state :: "ConversationState \<Rightarrow> Heap \<Rightarrow> ref \<times> Heap" where
  "alloc_state obj h =
     (nextRef h, h\<lparr>stateObjs := (stateObjs h)(nextRef h := obj), nextRef := nextRef h + 1\<rparr>)"

definition flags_put :: "ref \<Rightarrow> string \<Rightarrow> bool \<Rightarrow> Heap \<Rightarrow> Heap" where
  "flags_put a flag v h = h\<lparr>flagsObjs := (flagsObjs h)(a := AList.update flag v (flagsObjs h a))\<rparr>"

definition history_push :: "ref \<Rightarrow> FlagHistoryEntry \<Rightarrow> Heap \<Rightarrow> Heap" where
  "history_push a e h = h\<lparr>historyArrs := (historyArrs h)(a := historyArrs h a @ [e])\<rparr>"

text \<open>\<^verbatim>\<open>state.flags[flag]\<close> of the state object at \<open>st\<close>.\<close>

definition state_flag :: "Heap \<Rightarrow> ref \<Rightarrow> string \<Rightarrow> bool option" where
  "state_flag h st flag = map_of (flagsObjs h (flags_state (stateObjs h st))) flag"

text \<open>An optional array read where the source guards with \<^verbatim>\<open>x && x.length > 0\<close> or
  \<^verbatim>\<open>if (x) for (... of x)\<close>: absent behaves as empty.\<close>

definition arr :: "'a list option \<Rightarrow> 'a list" where
  "arr x = (case x of None \<Rightarrow> [] | Some xs \<Rightarrow> xs)"

subsection \<open>preFilterRules\<close>

definition preFilterRules :: "Rule list \<Rightarrow> Heap \<Rightarrow> ref \<Rightarrow> Rule list" where
  "preFilterRules rs h st =
     filter (\<lambda>r. case flags r of
                   None \<Rightarrow> True
                 | Some f \<Rightarrow>
                     if arr (check_fl f) = [] then True
                     else list_all (\<lambda>flag. state_flag h st flag = Some True) (arr (check_fl f)))
            rs"

subsection \<open>updateState\<close>

text \<open>The two \<^verbatim>\<open>for (const flag of ...)\<close> loops, on the copies at \<open>fr\<close> and \<open>hr\<close>.\<close>

fun write_flags ::
  "ref \<Rightarrow> ref \<Rightarrow> bool \<Rightarrow> HistoryAction \<Rightarrow> string \<Rightarrow> int \<Rightarrow> string list \<Rightarrow> Heap \<Rightarrow> Heap" where
  "write_flags fr hr v a rid now [] h = h"
| "write_flags fr hr v a rid now (flag # fs) h =
     write_flags fr hr v a rid now fs
       (history_push hr \<lparr>flag_h = flag, action_h = a, ruleId_h = rid, timestamp_h = now\<rparr>
          (flags_put fr flag v h))"

definition updateState ::
  "int \<Rightarrow> Rule \<Rightarrow> EvaluationContext \<Rightarrow> ref \<Rightarrow> 'rx World \<Rightarrow> ref \<times> 'rx World" where
  "updateState now r ctx st w =
     (case flags r of
        None \<Rightarrow> (st, w)
      | Some f \<Rightarrow>
          let s = stateObjs (heap w) st;
              (fr, h1) = alloc_flags (flagsObjs (heap w) (flags_state s)) (heap w);
              (hr, h2) = alloc_history (historyArrs h1 (flagHistory_state s)) h1;
              h3 = write_flags fr hr True SetAction (id_rule r) now (arr (set_fl f)) h2;
              h4 = write_flags fr hr False UnsetAction (id_rule r) now (arr (unset_fl f)) h3;
              ttl = or_num (ttl_fl f) 86400;
              (sr, h5) = alloc_state (s\<lparr>flags_state := fr, flagHistory_state := hr,
                                          expiresAt := now + ttl * 1000, updatedAt := now\<rparr>) h4;
              sc1 = StateCache_set now (tokenId ctx) (conversationId ctx) sr (accountId ctx)
                      (stateCache w);
              sc2 = markDirty (tokenId ctx) (conversationId ctx) (accountId ctx) sc1
          in (sr, w\<lparr>heap := h5, stateCache := sc2\<rparr>))"

subsection \<open>The three matching stages\<close>

text \<open>The locals \<^verbatim>\<open>matched\<close>, \<^verbatim>\<open>matchedPattern\<close> and \<^verbatim>\<open>similarity\<close> of the loop
  body. A stage returns \<^term>\<open>None\<close> where the source says \<^verbatim>\<open>continue\<close>.\<close>

record Locals =
  matched_l :: bool
  matchedPattern_l :: "string option"
  similarity_l :: "rat option"

definition nocase_on :: "Rule \<Rightarrow> bool" where
  "nocase_on r = (nocase r \<noteq> Some False)"

definition allKeywordsFound :: "Rule \<Rightarrow> string \<Rightarrow> bool" where
  "allKeywordsFound r msg =
     (let searchContent = (if nocase_on r then toLowerCase msg else msg)
      in list_all (\<lambda>keyword. includes_str searchContent
                      (if nocase_on r then toLowerCase keyword else keyword))
           (arr (content r)))"

definition content_stage :: "Rule \<Rightarrow> string \<Rightarrow> Locals \<Rightarrow> Locals option" where
  "content_stage r msg l =
     (if arr (content r) \<noteq> [] then
        if \<not> allKeywordsFound r msg then None
        else Some (l\<lparr>matched_l := True, matchedPattern_l := Some (join (arr (content r)))\<rparr>)
      else Some l)"

text \<open>\<^verbatim>\<open>rule.pcre.every(pattern => ...)\<close>: stops at the first pattern without a match;
  a compile error leaves the loop at once.\<close>

fun pcre_every ::
  "'rx Runtime \<Rightarrow> string \<Rightarrow> string \<Rightarrow> string list \<Rightarrow> (string \<rightharpoonup> 'rx) \<Rightarrow> string option
     \<Rightarrow> (js_error + bool) \<times> (string \<rightharpoonup> 'rx) \<times> string option" where
  "pcre_every rt fl msg [] rc mp = (Inr True, rc, mp)"
| "pcre_every rt fl msg (pattern # ps) rc mp =
     (case RegexCache_get rt pattern fl rc of
        (Inl e, rc') \<Rightarrow> (Inl e, rc', mp)
      | (Inr regex, rc') \<Rightarrow>
          (case RegExp_exec rt regex msg of
             None \<Rightarrow> (Inr False, rc', mp)
           | Some m \<Rightarrow> pcre_every rt fl msg ps rc' (if falsy_str mp then Some m else mp)))"

definition pcre_stage ::
  "'rx Runtime \<Rightarrow> Rule \<Rightarrow> string \<Rightarrow> (string \<rightharpoonup> 'rx) \<Rightarrow> Locals
     \<Rightarrow> (js_error + Locals option) \<times> (string \<rightharpoonup> 'rx)" where
  "pcre_stage rt r msg rc l =
     (if arr (pcre r) \<noteq> [] then
        case pcre_every rt (if nocase_on r then ''gi'' else ''g'') msg (arr (pcre r)) rc
               (matchedPattern_l l) of
          (Inl e, rc', mp) \<Rightarrow> (Inl e, rc')
        | (Inr allPatternsMatch, rc', mp) \<Rightarrow>
            if \<not> allPatternsMatch then (Inr None, rc')
            else (Inr (Some (l\<lparr>matched_l := True, matchedPattern_l := mp\<rparr>)), rc')
      else (Inr (Some l), rc))"

definition semantic_stage ::
  "'rx Runtime \<Rightarrow> (string \<Rightarrow> rat \<Rightarrow> js_error + (Rule \<times> rat) list) option \<Rightarrow> Rule \<Rightarrow> string
     \<Rightarrow> Locals \<Rightarrow> js_error + Locals option" where
  "semantic_stage rt matcher r msg l =
     (case matcher of
        None \<Rightarrow> Inr (Some l)
      | Some queryRules \<Rightarrow>
          if arr (semantic r) \<noteq> [] then
            case queryRules msg (or_rat (semanticThreshold r) (17 / 20)) of
              Inl e \<Rightarrow> Inl e
            | Inr semanticMatches \<Rightarrow>
                (case find (\<lambda>m. id_rule (fst m) = id_rule r) semanticMatches of
                   Some semanticMatch \<Rightarrow>
                     Inr (Some (l\<lparr>matched_l := True,
                                  matchedPattern_l :=
                                    Some (''semantic match ('' @ toFixed1 rt (snd semanticMatch * 100)
                                          @ ''%)''),
                                  similarity_l := Some (snd semanticMatch)\<rparr>))
                 | None \<Rightarrow> if \<not> matched_l l then Inr None else Inr (Some l))
          else Inr (Some l))"

definition run_stages ::
  "'rx Runtime \<Rightarrow> (string \<Rightarrow> rat \<Rightarrow> js_error + (Rule \<times> rat) list) option \<Rightarrow> Rule \<Rightarrow> string
     \<Rightarrow> (string \<rightharpoonup> 'rx) \<Rightarrow> (js_error + Locals option) \<times> (string \<rightharpoonup> 'rx)" where
  "run_stages rt matcher r msg rc =
     (case content_stage r msg
             \<lparr>matched_l = False, matchedPattern_l = None, similarity_l = None\<rparr> of
        None \<Rightarrow> (Inr None, rc)
      | Some l1 \<Rightarrow>
          (case pcre_stage rt r msg rc l1 of
             (Inl e, rc') \<Rightarrow> (Inl e, rc')
           | (Inr None, rc') \<Rightarrow> (Inr None, rc')
           | (Inr (Some l2), rc') \<Rightarrow>
               (case semantic_stage rt matcher r msg l2 of
                  Inl e \<Rightarrow> (Inl e, rc')
                | Inr None \<Rightarrow> (Inr None, rc')
                | Inr (Some l3) \<Rightarrow>
                    if \<not> matched_l l3 then (Inr None, rc') else (Inr (Some l3), rc'))))"

subsection \<open>The loop body of evaluate\<close>

text \<open>
  \<^verbatim>\<open>Date.now()\<close> is taken to return the same value \<open>now\<close> at every read within
  one call of \<^verbatim>\<open>evaluate\<close>, and calls of \<^verbatim>\<open>evaluate\<close> run one after the other.
  The loop state holds the \<^verbatim>\<open>results\<close> array, the variable \<^verbatim>\<open>state\<close> and the
  engine with the store. The body ends in \<^verbatim>\<open>continue\<close> (or falls through), in
  \<^verbatim>\<open>break\<close>, or in an exception.
\<close>

record 'rx LoopState =
  results :: "EvaluationResult list"
  state_cur :: ref
  world :: "'rx World"

datatype 'a outcome = Continue 'a | Break 'a | Throw js_error 'a

fun state_of :: "'a outcome \<Rightarrow> 'a" where
  "state_of (Continue x) = x"
| "state_of (Break x) = x"
| "state_of (Throw e x) = x"

definition threshold_reason :: "Rule \<Rightarrow> string" where
  "threshold_reason r =
     ''Threshold not met ('' @ template_num (threshold r) @ '' in '' @ template_num (window r)
     @ ''s)''"

text \<open>The two object literals pushed onto \<^verbatim>\<open>results\<close>.\<close>

definition nonmatch_result :: "int \<Rightarrow> int \<Rightarrow> Rule \<Rightarrow> EvaluationResult" where
  "nonmatch_result now ruleStartTime r =
     \<lparr>matched = False, rule = r, action_res = None, state_res = None,
      reason = Some (threshold_reason r), evalTimeMs = now - ruleStartTime,
      similarity = None, matchedPattern = None\<rparr>"

definition match_result :: "int \<Rightarrow> int \<Rightarrow> Rule \<Rightarrow> ref \<Rightarrow> Locals \<Rightarrow> EvaluationResult" where
  "match_result now ruleStartTime r st l =
     \<lparr>matched = True, rule = r, action_res = Some (action r), state_res = Some st,
      reason = None, evalTimeMs = now - ruleStartTime,
      similarity = similarity_l l, matchedPattern = matchedPattern_l l\<rparr>"

definition threshold_gate ::
  "int \<Rightarrow> Rule \<Rightarrow> EvaluationContext \<Rightarrow> Locals \<Rightarrow> 'rx LoopState \<Rightarrow> 'rx LoopState outcome" where
  "threshold_gate now r ctx l ls =
     (let ruleStartTime = now;
          (thresholdMet, tr') =
             ThresholdTracker_check now r (tokenId ctx) (conversationId ctx) (accountId ctx)
               (thresholdTracker (world ls));
          w1 = (world ls)\<lparr>thresholdTracker := tr'\<rparr>
      in if \<not> thresholdMet then
           Continue (ls\<lparr>results := results ls @ [nonmatch_result now ruleStartTime r],
                       world := w1\<rparr>)
         else
           let (st', w2) = updateState now r ctx (state_cur ls) w1;
               ls' = ls\<lparr>results := results ls @ [match_result now ruleStartTime r st' l],
                        state_cur := st', world := w2\<rparr>
           in if action r = Block \<and> severity r = Critical then Break ls' else Continue ls')"

definition eval_rule ::
  "'rx Runtime \<Rightarrow> int \<Rightarrow> EvaluationContext \<Rightarrow> Rule \<Rightarrow> 'rx LoopState \<Rightarrow> 'rx LoopState outcome" where
  "eval_rule rt now ctx r ls =
     (case run_stages rt (semanticMatcher (world ls)) r (message ctx) (regexCache (world ls)) of
        (Inl e, rc') \<Rightarrow> Throw e (ls\<lparr>world := (world ls)\<lparr>regexCache := rc'\<rparr>\<rparr>)
      | (Inr None, rc') \<Rightarrow> Continue (ls\<lparr>world := (world ls)\<lparr>regexCache := rc'\<rparr>\<rparr>)
      | (Inr (Some l), rc') \<Rightarrow>
          threshold_gate now r ctx l (ls\<lparr>world := (world ls)\<lparr>regexCache := rc'\<rparr>\<rparr>))"

text \<open>\<^verbatim>\<open>for (const rule of eligibleRules)\<close>. The first component is the exception
  that left the loop, if any.\<close>

fun eval_loop ::
  "'rx Runtime \<Rightarrow> int \<Rightarrow> EvaluationContext \<Rightarrow> Rule list \<Rightarrow> 'rx LoopState
     \<Rightarrow> js_error option \<times> 'rx LoopState" where
  "eval_loop rt now ctx [] ls = (None, ls)"
| "eval_loop rt now ctx (r # rs) ls =
     (case eval_rule rt now ctx r ls of
        Continue ls' \<Rightarrow> eval_loop rt now ctx rs ls'
      | Break ls' \<Rightarrow> (None, ls')
      | Throw e ls' \<Rightarrow> (Some e, ls'))"

subsection \<open>evaluate\<close>

text \<open>Loading the state: \<^verbatim>\<open>ctx.state\<close>, else the cache, else the provider, else a
  new state, which is put into the cache.\<close>

definition hydrate ::
  "int \<Rightarrow> EvaluationContext \<Rightarrow> 'rx World \<Rightarrow> (js_error + ref) \<times> 'rx World" where
  "hydrate now ctx w =
     (case state_ctx ctx of
        Some st \<Rightarrow> (Inr st, w)
      | None \<Rightarrow>
          let (cached, sc') =
                StateCache_get now (tokenId ctx) (conversationId ctx) (accountId ctx) (stateCache w);
              w1 = w\<lparr>stateCache := sc'\<rparr>
          in case cached of
               Some st \<Rightarrow> (Inr st, w1)
             | None \<Rightarrow>
                 (case (case stateProvider w1 of
                          None \<Rightarrow> Inr None
                        | Some p \<Rightarrow>
                            provider_get p (tokenId ctx) (conversationId ctx) (accountId ctx)) of
                    Inl e \<Rightarrow> (Inl e, w1)
                  | Inr (Some st) \<Rightarrow> (Inr st, w1)
                  | Inr None \<Rightarrow>
                      let (fr, h1) = alloc_flags [] (heap w1);
                          (hr, h2) = alloc_history [] h1;
                          (sr, h3) = alloc_state
                             \<lparr>id_state = getKey (tokenId ctx) (conversationId ctx) (accountId ctx),
                              tokenId_state = tokenId ctx,
                              conversationId_state = conversationId ctx,
                              accountId_state = accountId ctx,
                              flags_state = fr, flagHistory_state = hr,
                              expiresAt = now + 24 * 60 * 60 * 1000,
                              createdAt = now, updatedAt = now\<rparr> h2
                      in (Inr sr,
                          w1\<lparr>heap := h3,
                             stateCache := StateCache_set now (tokenId ctx) (conversationId ctx) sr
                                             (accountId ctx) (stateCache w1)\<rparr>)))"

text \<open>\<^verbatim>\<open>for (const result of results) if (result.state) await save(result.state)\<close>.\<close>

fun flush_states ::
  "StateProvider \<Rightarrow> EvaluationResult list \<Rightarrow> ref list \<Rightarrow> js_error option \<times> ref list" where
  "flush_states p [] sv = (None, sv)"
| "flush_states p (result # rest) sv =
     (case state_res result of
        None \<Rightarrow> flush_states p rest sv
      | Some st \<Rightarrow>
          (case provider_save p st of
             Some e \<Rightarrow> (Some e, sv @ [st])
           | None \<Rightarrow> flush_states p rest (sv @ [st])))"

definition evaluate ::
  "'rx Runtime \<Rightarrow> int \<Rightarrow> EvaluationContext \<Rightarrow> 'rx World
     \<Rightarrow> (js_error + EvaluationResult list) \<times> 'rx World" where
  "evaluate rt now ctx w =
     (case hydrate now ctx w of
        (Inl e, w1) \<Rightarrow> (Inl e, w1)
      | (Inr st, w1) \<Rightarrow>
          let eligibleRules = preFilterRules (rules w1) (heap w1) st
          in case eval_loop rt now ctx eligibleRules
                    \<lparr>results = [], state_cur = st, world = w1\<rparr> of
               (Some e, ls) \<Rightarrow> (Inl e, world ls)
             | (None, ls) \<Rightarrow>
                 (case stateProvider (world ls) of
                    None \<Rightarrow> (Inr (results ls), world ls)
                  | Some p \<Rightarrow>
                      (case flush_states p (results ls) (saved (world ls)) of
                         (Some e, sv) \<Rightarrow> (Inl e, (world ls)\<lparr>saved := sv\<rparr>)
                       | (None, sv) \<Rightarrow> (Inr (results ls), (world ls)\<lparr>saved := sv\<rparr>))))"

definition shutdown :: "'rx World \<Rightarrow> 'rx World" where
  "shutdown w =
     w\<lparr>stateCache := StateCache_clear (flushWrites (stateCache w)),
       regexCache := Map.empty, thresholdTracker := Map.empty\<rparr>"

section \<open>A runtime for running the engine on concrete inputs\<close>

text \<open>
  The fragment of JavaScript regular expressions without syntax characters: such a
  pattern matches itself, under the flag \<^verbatim>\<open>i\<close> up to the case of ASCII letters, and
  \<^verbatim>\<open>exec\<close> gives the first occurrence in the message. This runtime rejects every
  pattern with a syntax character; the only such pattern it is used on is \<^verbatim>\<open>(\<close>,
  which \<^verbatim>\<open>new RegExp\<close> rejects as an unterminated group. \<open>toFixed1\<close> is not
  modelled: the runtime prints a fixed text.
\<close>

datatype lit_regex = Lit string bool

definition is_syntax_char :: "char \<Rightarrow> bool" where
  "is_syntax_char c = (c \<in> set ''^$.|?*+()[]{}'' \<or> c = CHR 0x5C)"

definition lit_RegExp_new :: "string \<Rightarrow> string \<Rightarrow> lit_regex option" where
  "lit_RegExp_new pattern fl =
     (if list_ex is_syntax_char pattern then None else Some (Lit pattern (CHR ''i'' \<in> set fl)))"

fun first_occurrence :: "string \<Rightarrow> bool \<Rightarrow> string \<Rightarrow> string option" where
  "first_occurrence p ic [] = (if p = [] then Some [] else None)"
| "first_occurrence p ic (c # cs) =
     (if (if ic then starts_with (toLowerCase (c # cs)) (toLowerCase p)
          else starts_with (c # cs) p)
      then Some (take (length p) (c # cs))
      else first_occurrence p ic cs)"

fun lit_RegExp_exec :: "lit_regex \<Rightarrow> string \<Rightarrow> string option" where
  "lit_RegExp_exec (Lit p ic) msg = first_occurrence p ic msg"

definition lit_runtime :: "lit_regex Runtime" where
  "lit_runtime =
     \<lparr>RegExp_new = lit_RegExp_new, RegExp_exec = lit_RegExp_exec, toFixed1 = (\<lambda>_. ''?'')\<rparr>"

text \<open>A rule with every optional field absent.\<close>

definition plain_rule :: "string \<Rightarrow> RuleSeverity \<Rightarrow> RuleAction \<Rightarrow> Rule" where
  "plain_rule rid sev act =
     \<lparr>id_rule = rid, content = None, pcre = None, semantic = None, semanticThreshold = None,
      flags = None, threshold = None, window = None, category = Unknown, severity = sev,
      action = act, enabled = True, nocase = None\<rparr>"

definition no_flags :: RuleFlags where
  "no_flags = \<lparr>set_fl = None, unset_fl = None, check_fl = None, ttl_fl = None\<rparr>"

definition ctx_of :: "string \<Rightarrow> string \<Rightarrow> string option \<Rightarrow> string \<Rightarrow> EvaluationContext" where
  "ctx_of tok conv acct msg =
     \<lparr>tokenId = tok, conversationId = conv, accountId = acct, message = msg, state_ctx = None\<rparr>"

section \<open>Observations and scenarios\<close>

text \<open>\<^verbatim>\<open>trackers.get(key)?.get(rule.id)\<close>: the tracker entry of a rule for a tuple.\<close>

definition tracked_entry ::
  "Trackers \<Rightarrow> string \<Rightarrow> string \<Rightarrow> string option \<Rightarrow> string \<Rightarrow> TrackerEntry option" where
  "tracked_entry trackers tok conv acct rid =
     (case trackers (getKey tok conv acct) of None \<Rightarrow> None | Some m \<Rightarrow> m rid)"

text \<open>The \<^verbatim>\<open>matched\<close> fields of the results a call returned.\<close>

definition matched_flags ::
  "(js_error + EvaluationResult list) \<times> 'w \<Rightarrow> bool list option" where
  "matched_flags x = (case fst x of Inl e \<Rightarrow> None | Inr rs \<Rightarrow> Some (map matched rs))"

text \<open>The threshold scenario: the rule
  \<^verbatim>\<open>{content: ['buy'], threshold: 3, window: 10, action: 'block'}\<close> and the message
  \<^verbatim>\<open>'buy now'\<close> in one conversation.\<close>

definition buy_rule :: Rule where
  "buy_rule = (plain_rule ''rate-limit'' Medium Block)
                \<lparr>content := Some [''buy''], threshold := Some 3, window := Some 10\<rparr>"

definition buy_call ::
  "int \<Rightarrow> lit_regex World \<Rightarrow> (js_error + EvaluationResult list) \<times> lit_regex World" where
  "buy_call now w = evaluate lit_runtime now (ctx_of ''user1'' ''conv1'' None ''buy now'') w"

definition buy_engine :: "lit_regex World" where
  "buy_engine = loadRules [buy_rule] (new_RulesEngine None None)"

text \<open>The tracker after two counted matches of that rule in the conversation.\<close>

definition two_counted :: Trackers where
  "two_counted =
     [''user1:conv1:'' \<mapsto>
        [''rate-limit'' \<mapsto> \<lparr>count = 2, firstMatch = 1000, windowEnd = 11000\<rparr>]]"

text \<open>A result that makes the loop \<^verbatim>\<open>break\<close>: a match of a rule with action
  \<^verbatim>\<open>block\<close> and severity \<^verbatim>\<open>critical\<close>.\<close>

definition critical_hit :: "EvaluationResult \<Rightarrow> bool" where
  "critical_hit res = (matched res \<and> action (rule res) = Block \<and> severity (rule res) = Critical)"

text \<open>The ids of the rules in the results a call returned.\<close>

definition result_ids :: "(js_error + EvaluationResult list) \<times> 'w \<Rightarrow> string list option" where
  "result_ids x = (case fst x of Inl e \<Rightarrow> None | Inr rs \<Rightarrow> Some (map (id_rule \<circ> rule) rs))"

text \<open>Two rules with the same stage inputs, one with action \<^verbatim>\<open>pass\<close> and one with
  action \<^verbatim>\<open>block\<close>, loaded in that order.\<close>

definition pass_rule :: Rule where
  "pass_rule = (plain_rule ''p'' Low Pass)\<lparr>content := Some [''test'']\<rparr>"

definition block_rule :: Rule where
  "block_rule = (plain_rule ''b'' High Block)\<lparr>content := Some [''test'']\<rparr>"

definition pass_block_engine :: "lit_regex World" where
  "pass_block_engine = loadRules [pass_rule, block_rule] (new_RulesEngine None None)"

text \<open>The SQL-injection scenario: a critical block rule followed in the priority order
  by a rule that the same message matches.\<close>

definition sql_rule :: Rule where
  "sql_rule = (plain_rule ''sql-001'' Critical Block)
                \<lparr>content := Some [''DROP'', ''TABLE''], pcre := Some [''DROP TABLE'']\<rparr>"

definition sanitize_rule :: Rule where
  "sanitize_rule = (plain_rule ''san-001'' Low Sanitize)\<lparr>content := Some [''table'']\<rparr>"

definition sql_engine :: "lit_regex World" where
  "sql_engine = loadRules [sanitize_rule, sql_rule] (new_RulesEngine None None)"

definition sql_ctx :: EvaluationContext where
  "sql_ctx = ctx_of ''bot-123'' ''conv-456'' None ''x; DROP TABLE users; --''"

text \<open>The loop state in which \<^verbatim>\<open>evaluate\<close> enters its loop: the state it loaded and
  no results.\<close>

definition loop_start :: "int \<Rightarrow> EvaluationContext \<Rightarrow> 'rx World \<Rightarrow> 'rx LoopState" where
  "loop_start now ctx w =
     (case hydrate now ctx w of
        (Inr st, w1) \<Rightarrow> \<lparr>results = [], state_cur = st, world = w1\<rparr>
      | (Inl e, w1) \<Rightarrow> \<lparr>results = [], state_cur = 0, world = w1\<rparr>)"

text \<open>
  What the three stages test, read off the loop body. The content test is
  \<^const>\<open>allKeywordsFound\<close>. The pcre test is the result of \<^verbatim>\<open>rule.pcre.every(...)\<close>
  on the regex cache of the moment. The semantic stage is declared when the rule has
  semantic phrases and the engine has a matcher; it passes when the matcher's results
  hold an entry with the rule's id.
\<close>

definition pcre_passes :: "'rx Runtime \<Rightarrow> Rule \<Rightarrow> string \<Rightarrow> (string \<rightharpoonup> 'rx) \<Rightarrow> bool" where
  "pcre_passes rt r msg rc =
     (fst (pcre_every rt (if nocase_on r then ''gi'' else ''g'') msg (arr (pcre r)) rc None)
        = Inr True)"

definition semantic_declared ::
  "(string \<Rightarrow> rat \<Rightarrow> js_error + (Rule \<times> rat) list) option \<Rightarrow> Rule \<Rightarrow> bool" where
  "semantic_declared matcher r = (arr (semantic r) \<noteq> [] \<and> matcher \<noteq> None)"

definition semantic_passes ::
  "(string \<Rightarrow> rat \<Rightarrow> js_error + (Rule \<times> rat) list) option \<Rightarrow> Rule \<Rightarrow> string \<Rightarrow> bool" where
  "semantic_passes matcher r msg =
     (case matcher of
        None \<Rightarrow> False
      | Some queryRules \<Rightarrow>
          (case queryRules msg (or_rat (semanticThreshold r) (17 / 20)) of
             Inl e \<Rightarrow> False
           | Inr semanticMatches \<Rightarrow>
               find (\<lambda>m. id_rule (fst m) = id_rule r) semanticMatches \<noteq> None))"

text \<open>The condition under which the loop body reaches the threshold check: the content
  and pcre stages pass where the rule has them, and one of the three stages is there
  and passes.\<close>

definition stages_matched ::
  "'rx Runtime \<Rightarrow> (string \<Rightarrow> rat \<Rightarrow> js_error + (Rule \<times> rat) list) option \<Rightarrow> Rule \<Rightarrow> string
     \<Rightarrow> (string \<rightharpoonup> 'rx) \<Rightarrow> bool" where
  "stages_matched rt matcher r msg rc =
     ((arr (content r) = [] \<or> allKeywordsFound r msg) \<and>
      (arr (pcre r) = [] \<or> pcre_passes rt r msg rc) \<and>
      (arr (content r) \<noteq> [] \<or> arr (pcre r) \<noteq> [] \<or>
       (semantic_declared matcher r \<and> semantic_passes matcher r msg)))"

text \<open>A rule without stage inputs: no content, no pcre, no semantic.\<close>

definition no_stage_inputs :: "Rule \<Rightarrow> bool" where
  "no_stage_inputs r = (arr (content r) = [] \<and> arr (pcre r) = [] \<and> arr (semantic r) = [])"

text \<open>A rule with a keyword and a semantic phrase, in an engine whose semantic matcher
  finds nothing; the same rule with a threshold.\<close>

definition empty_matcher :: "string \<Rightarrow> rat \<Rightarrow> js_error + (Rule \<times> rat) list" where
  "empty_matcher msg thr = Inr []"

definition hybrid_rule :: Rule where
  "hybrid_rule = (plain_rule ''hyb-001'' High Flag)
                   \<lparr>content := Some [''buy''], semantic := Some [''purchase immediately'']\<rparr>"

definition hybrid_engine :: "lit_regex World" where
  "hybrid_engine = loadRules [hybrid_rule] (new_RulesEngine (Some empty_matcher) None)"

definition limited_rule :: Rule where
  "limited_rule = (plain_rule ''hyb-002'' High Flag)
                    \<lparr>content := Some [''buy''], semantic := Some [''purchase immediately''],
                     threshold := Some 3, window := Some 10\<rparr>"

definition limited_engine :: "lit_regex World" where
  "limited_engine = loadRules [limited_rule] (new_RulesEngine (Some empty_matcher) None)"

definition buy_ctx :: EvaluationContext where
  "buy_ctx = ctx_of ''user1'' ''conv1'' None ''buy now''"

text \<open>A rule whose only input is \<^verbatim>\<open>flags.check\<close>, and a store with a conversation state
  (at address 2) in which the checked flag is true.\<close>

definition check_only_rule :: Rule where
  "check_only_rule = (plain_rule ''stateful-001'' High Block)
                       \<lparr>flags := Some (no_flags\<lparr>check_fl := Some [''s1'']\<rparr>)\<rparr>"

definition flagged_heap :: Heap where
  "flagged_heap =
     \<lparr>flagsObjs = (\<lambda>_. [])(0 := [(''s1'', True)]),
      historyArrs = (\<lambda>_. []),
      stateObjs = (\<lambda>_. no_state)
        (2 := \<lparr>id_state = ''user1:conv1:'', tokenId_state = ''user1'',
               conversationId_state = ''conv1'', accountId_state = None, flags_state = 0,
               flagHistory_state = 1, expiresAt = 86400000, createdAt = 0, updatedAt = 0\<rparr>),
      nextRef = 3\<rparr>"

definition check_only_engine :: "lit_regex World" where
  "check_only_engine =
     (loadRules [check_only_rule] (new_RulesEngine None None))\<lparr>heap := flagged_heap\<rparr>"

definition flagged_ctx :: EvaluationContext where
  "flagged_ctx = (ctx_of ''user1'' ''conv1'' None ''hello'')\<lparr>state_ctx := Some 2\<rparr>"







text \<open>
  \<open>heap_extends h h'\<close>: every object of the store \<open>h\<close> is in \<open>h'\<close> with the same
  contents, that is, getting from \<open>h\<close> to \<open>h'\<close> wrote into no object that existed in
  \<open>h\<close>. A state is allocated when it, its flags object and its history array exist.
\<close>

definition heap_extends :: "Heap \<Rightarrow> Heap \<Rightarrow> bool" where
  "heap_extends h h' =
     (nextRef h \<le> nextRef h' \<and>
      (\<forall>a < nextRef h. flagsObjs h' a = flagsObjs h a \<and> historyArrs h' a = historyArrs h a \<and>
                         stateObjs h' a = stateObjs h a))"

definition allocated :: "Heap \<Rightarrow> ref \<Rightarrow> bool" where
  "allocated h st =
     (st < nextRef h \<and> flags_state (stateObjs h st) < nextRef h \<and>
      flagHistory_state (stateObjs h st) < nextRef h)"

text \<open>The flags of a state after a rule's \<^verbatim>\<open>set\<close> and \<^verbatim>\<open>unset\<close> lists were applied to
  a copy of the flags \<open>old\<close>, and the history entries the rule appends.\<close>

definition flags_after :: "RuleFlags \<Rightarrow> (string \<rightharpoonup> bool) \<Rightarrow> (string \<rightharpoonup> bool)" where
  "flags_after f old =
     (\<lambda>flag. if flag \<in> set (arr (unset_fl f)) then Some False
             else if flag \<in> set (arr (set_fl f)) then Some True
             else old flag)"

definition history_entries :: "int \<Rightarrow> Rule \<Rightarrow> RuleFlags \<Rightarrow> FlagHistoryEntry list" where
  "history_entries now r f =
     map (\<lambda>flag. \<lparr>flag_h = flag, action_h = SetAction, ruleId_h = id_rule r, timestamp_h = now\<rparr>)
       (arr (set_fl f)) @
     map (\<lambda>flag. \<lparr>flag_h = flag, action_h = UnsetAction, ruleId_h = id_rule r, timestamp_h = now\<rparr>)
       (arr (unset_fl f))"

text \<open>Two rules with flags that fire on the same message, one after the other, and the
  loop states after the first and after the second.\<close>

definition stage1_rule :: Rule where
  "stage1_rule = (plain_rule ''stage-1'' Low Flag)
                   \<lparr>content := Some [''verify''],
                    flags := Some (no_flags\<lparr>set_fl := Some [''s1'']\<rparr>)\<rparr>"

definition stage2_rule :: Rule where
  "stage2_rule = (plain_rule ''stage-2'' Low Alert)
                   \<lparr>content := Some [''urgent''],
                    flags := Some (no_flags\<lparr>set_fl := Some [''s2'']\<rparr>)\<rparr>"

definition two_stage_engine :: "lit_regex World" where
  "two_stage_engine = loadRules [stage1_rule, stage2_rule] (new_RulesEngine None None)"

definition verify_ctx :: EvaluationContext where
  "verify_ctx = ctx_of ''user1'' ''conv1'' None ''Please verify your account, urgent''"

definition after_stage1 :: "lit_regex LoopState" where
  "after_stage1 =
     state_of (eval_rule lit_runtime 1000 verify_ctx stage1_rule
                 (loop_start 1000 verify_ctx two_stage_engine))"

definition after_stage2 :: "lit_regex LoopState" where
  "after_stage2 = snd (eval_loop lit_runtime 1000 verify_ctx [stage2_rule] after_stage1)"

text \<open>\<^verbatim>\<open>cache.get(key)\<close> for a tuple, and the state carried by the last
  \<open>matched = true\<close> result of a result list.\<close>

definition cache_entry ::
  "StateCache \<Rightarrow> string \<Rightarrow> string \<Rightarrow> string option \<Rightarrow> CacheEntry option" where
  "cache_entry sc tok conv acct = map_of (cache sc) (getKey tok conv acct)"

definition last_state :: "EvaluationResult list \<Rightarrow> ref option" where
  "last_state res =
     (if filter matched res = [] then None else state_res (last (filter matched res)))"

text \<open>Some result is a match of a rule with flags: a rule fired and wrote flags.\<close>

definition wrote_flags :: "EvaluationResult list \<Rightarrow> bool" where
  "wrote_flags res = list_ex (\<lambda>x. matched x \<and> flags (rule x) \<noteq> None) res"

text \<open>The scenario of the test \<open>checks required flags before evaluating\<close>: a first call
  sets a flag; a second call is given the state of the first call's result as
  \<^verbatim>\<open>ctx.state\<close> and fires a rule that checks that flag and sets another; a third call
  for the same tuple has no \<^verbatim>\<open>ctx.state\<close>.\<close>

definition setter_rule :: Rule where
  "setter_rule = (plain_rule ''stage-1-setter'' Low Pass)
                   \<lparr>content := Some [''verify''],
                    flags := Some (no_flags\<lparr>set_fl := Some [''verify_mentioned'']\<rparr>)\<rparr>"

definition checker_rule :: Rule where
  "checker_rule = (plain_rule ''stage-2-checker'' High Block)
                    \<lparr>content := Some [''account''],
                     flags := Some (no_flags\<lparr>check_fl := Some [''verify_mentioned''],
                                            set_fl := Some [''confirmed'']\<rparr>)\<rparr>"

definition checker_engine :: "lit_regex World" where
  "checker_engine = loadRules [setter_rule, checker_rule] (new_RulesEngine None None)"

definition first_call :: "(js_error + EvaluationResult list) \<times> lit_regex World" where
  "first_call =
     evaluate lit_runtime 1000 (ctx_of ''user1'' ''conv1'' None ''Please verify your account'')
       checker_engine"

definition second_ctx :: EvaluationContext where
  "second_ctx = (ctx_of ''user1'' ''conv1'' None ''Enter your account details'')
                  \<lparr>state_ctx := Some 5\<rparr>"

definition second_call :: "(js_error + EvaluationResult list) \<times> lit_regex World" where
  "second_call = evaluate lit_runtime 2000 second_ctx (snd first_call)"

definition third_ctx :: EvaluationContext where
  "third_ctx = ctx_of ''user1'' ''conv1'' None ''Enter your account details''"

text \<open>The invariant of the loop of \<^verbatim>\<open>evaluate\<close> about the state cache: once a rule
  with flags has fired, the cache entry of the tuple holds the current state, written at
  \<open>now\<close> and marked dirty; and the last \<open>matched = true\<close> result carries the current
  state.\<close>

definition written :: "int \<Rightarrow> EvaluationContext \<Rightarrow> 'rx LoopState \<Rightarrow> bool" where
  "written now ctx ls =
     ((wrote_flags (results ls) \<longrightarrow>
        cache_entry (stateCache (world ls)) (tokenId ctx) (conversationId ctx) (accountId ctx)
          = Some \<lparr>state_ce = state_cur ls, lastAccess = now, dirty = True\<rparr> \<and>
        getKey (tokenId ctx) (conversationId ctx) (accountId ctx)
          \<in> set (writeQueue (stateCache (world ls))) \<and>
        writeBatchTimer (stateCache (world ls))) \<and>
      (filter matched (results ls) \<noteq> [] \<longrightarrow> last_state (results ls) = Some (state_cur ls)))"

text \<open>
  Isolation between tuples. \<open>same_for key w1 w2\<close>: two engines over the same object
  store agree on everything an evaluation for the tuple with this key can use, and may
  differ in the cache entries and tracker entries of every other key (and in the size
  bound, the write queue and the log of saved states). \<open>has_room sc key\<close>: storing a
  state under the key does not make the cache evict an entry.
\<close>

definition same_for :: "string \<Rightarrow> 'rx World \<Rightarrow> 'rx World \<Rightarrow> bool" where
  "same_for key w1 w2 =
     (rules w1 = rules w2 \<and> semanticMatcher w1 = semanticMatcher w2 \<and>
      stateProvider w1 = stateProvider w2 \<and> regexCache w1 = regexCache w2 \<and>
      heap w1 = heap w2 \<and> ttl_cache (stateCache w1) = ttl_cache (stateCache w2) \<and>
      map_of (cache (stateCache w1)) key = map_of (cache (stateCache w2)) key \<and>
      thresholdTracker w1 key = thresholdTracker w2 key)"

definition has_room :: "StateCache \<Rightarrow> string \<Rightarrow> bool" where
  "has_room sc key =
     (length (cache sc) + (if key \<in> fst ` set (cache sc) then 0 else 1) < maxSize sc)"

text \<open>How the loop body ended, without the loop state.\<close>

fun tag_of :: "'a outcome \<Rightarrow> bool \<times> js_error option" where
  "tag_of (Continue x) = (False, None)"
| "tag_of (Break x) = (True, None)"
| "tag_of (Throw e x) = (True, Some e)"

definition same_loop :: "string \<Rightarrow> 'rx LoopState \<Rightarrow> 'rx LoopState \<Rightarrow> bool" where
  "same_loop key l1 l2 =
     (results l1 = results l2 \<and> state_cur l1 = state_cur l2 \<and> same_for key (world l1) (world l2))"

text \<open>Two tuples with the same key: the token id of the first contains a colon.\<close>

definition colon_first_call :: "(js_error + EvaluationResult list) \<times> lit_regex World" where
  "colon_first_call =
     evaluate lit_runtime 1000 (ctx_of ''a:b'' ''c'' None ''Please verify your account'')
       checker_engine"

definition colon_second_call :: "(js_error + EvaluationResult list) \<times> lit_regex World" where
  "colon_second_call =
     evaluate lit_runtime 2000 (ctx_of ''a'' ''b:c'' None ''Enter your account details'')
       (snd colon_first_call)"

text \<open>\<open>untouched key other w0 w\<close>: on the way from \<open>w0\<close> to \<open>w\<close>, an evaluation for
  the tuple with key \<open>key\<close> left the tracker entries of the key \<open>other\<close> as they
  were and, if the cache had room for \<open>key\<close>, left the cache entry of \<open>other\<close> as it
  was.\<close>

definition untouched :: "string \<Rightarrow> string \<Rightarrow> 'rx World \<Rightarrow> 'rx World \<Rightarrow> bool" where
  "untouched key other w0 w =
     (thresholdTracker w other = thresholdTracker w0 other \<and>
      (has_room (stateCache w0) key \<longrightarrow>
         map_of (cache (stateCache w)) other = map_of (cache (stateCache w0)) other \<and>
         has_room (stateCache w) key))"

text \<open>The flag-isolation scenario: after the first call set a flag for the conversation
  \<open>conv1\<close>, a call for the conversation \<open>conv2\<close> of the same token; and the engine of
  that moment with its state cache and threshold tracker emptied.\<close>

definition other_ctx :: EvaluationContext where
  "other_ctx = ctx_of ''user1'' ''conv2'' None ''Enter your account details''"

definition forgetful_engine :: "lit_regex World" where
  "forgetful_engine =
     (snd first_call)\<lparr>stateCache := StateCache_clear (stateCache (snd first_call)),
                       thresholdTracker := Map.empty\<rparr>"

section \<open>Properties\<close>

lemmas engine_defs = evaluate_def hydrate_def eval_rule_def run_stages_def content_stage_def
  pcre_stage_def semantic_stage_def threshold_gate_def ThresholdTracker_check_def updateState_def
  StateCache_get_def StateCache_set_def markDirty_def scheduleBatchWrite_def preFilterRules_def
  allKeywordsFound_def nocase_on_def arr_def getKey_def or_empty_def falsy_num_def or_num_def
  alloc_flags_def alloc_history_def alloc_state_def loadRules_def new_RulesEngine_def
  new_StateCache_def empty_heap_def plain_rule_def ctx_of_def getRulePriority_def
  actionPriority_def toLowerCase_def lower_char_def fresh_entry_def oldest_def
  state_flag_def threshold_reason_def template_num_def num_to_string_def
  nonmatch_result_def match_result_def flags_put_def history_push_def

subsection \<open>The threshold tracker\<close>

lemma check_fresh:
  assumes "threshold r = Some n" "n \<noteq> 0" "window r = Some w" "w \<noteq> 0"
    and "tracked_entry tr tok conv acct (id_rule r) = None \<or>
         (\<exists>e. tracked_entry tr tok conv acct (id_rule r) = Some e \<and> windowEnd e < now)"
  shows "fst (ThresholdTracker_check now r tok conv acct tr) = (n = 1) \<and>
         tracked_entry (snd (ThresholdTracker_check now r tok conv acct tr)) tok conv acct
           (id_rule r) = Some (fresh_entry now w)"
  using assms
  by (auto simp: ThresholdTracker_check_def tracked_entry_def falsy_num_def or_num_def Let_def
       split: option.splits)

lemma check_count:
  assumes "threshold r = Some n" "n \<noteq> 0" "window r = Some w" "w \<noteq> 0"
    and "tracked_entry tr tok conv acct (id_rule r) = Some e" "now \<le> windowEnd e"
  shows "fst (ThresholdTracker_check now r tok conv acct tr) = (n \<le> count e + 1) \<and>
         tracked_entry (snd (ThresholdTracker_check now r tok conv acct tr)) tok conv acct
           (id_rule r) = (if n \<le> count e + 1 then None else Some (e\<lparr>count := count e + 1\<rparr>))"
  using assms
  by (auto simp: ThresholdTracker_check_def tracked_entry_def falsy_num_def or_num_def Let_def
       split: option.splits)

lemma buy_scenario:
  assumes "t1 \<le> t2" "t2 \<le> t3" "t3 \<le> t1 + 10000" "t4 = t3 + 11000"
  shows "matched_flags (buy_call t1 buy_engine) = Some [False] \<and>
         matched_flags (buy_call t2 (snd (buy_call t1 buy_engine))) = Some [False] \<and>
         matched_flags (buy_call t3 (snd (buy_call t2 (snd (buy_call t1 buy_engine)))))
           = Some [True] \<and>
         matched_flags (buy_call t4 (snd (buy_call t3 (snd (buy_call t2
           (snd (buy_call t1 buy_engine))))))) = Some [False]"
  using assms
  by (simp add: matched_flags_def buy_call_def buy_engine_def buy_rule_def engine_defs Let_def)

text \<open>
  Claim C5. Let the rule have an integer threshold \<open>n \<ge> 1\<close> and a window that is set
  (a number other than 0: the source tests \<^verbatim>\<open>!rule.window\<close>). A call of
  \<^verbatim>\<open>ThresholdTracker.check\<close> that finds no entry, or finds \<open>now\<close> past the entry's
  \<open>windowEnd\<close>, creates the entry \<open>{count: 1, firstMatch: now, windowEnd: now + window * 1000}\<close>
  and returns true iff \<open>n = 1\<close>. Any other call increments the count; it returns true
  and deletes the entry exactly when the new count reaches \<open>n\<close>, and otherwise returns
  false and keeps the incremented entry. For the rule \<open>{threshold: 3, window: 10}\<close>,
  three matching evaluations of one tuple within 10 seconds give the results
  \<open>matched: false\<close>, \<open>matched: false\<close>, \<open>matched: true\<close>, and a fourth one 11 seconds
  later gives \<open>matched: false\<close>.
\<close>

theorem threshold_check_policy:
  assumes "threshold r = Some n" and "1 \<le> n" and "window r = Some w" and "w \<noteq> 0"
  shows "((tracked_entry tr tok conv acct (id_rule r) = None \<or>
           (\<exists>e. tracked_entry tr tok conv acct (id_rule r) = Some e \<and> windowEnd e < now)) \<longrightarrow>
            fst (ThresholdTracker_check now r tok conv acct tr) = (n = 1) \<and>
            tracked_entry (snd (ThresholdTracker_check now r tok conv acct tr)) tok conv acct
              (id_rule r) = Some (fresh_entry now w)) \<and>
         (\<forall>e. tracked_entry tr tok conv acct (id_rule r) = Some e \<and> now \<le> windowEnd e \<longrightarrow>
            fst (ThresholdTracker_check now r tok conv acct tr) = (n \<le> count e + 1) \<and>
            tracked_entry (snd (ThresholdTracker_check now r tok conv acct tr)) tok conv acct
              (id_rule r) = (if n \<le> count e + 1 then None else Some (e\<lparr>count := count e + 1\<rparr>))) \<and>
         (\<forall>t1 t2 t3 t4. t1 \<le> t2 \<and> t2 \<le> t3 \<and> t3 \<le> t1 + 10000 \<and> t4 = t3 + 11000 \<longrightarrow>
            matched_flags (buy_call t1 buy_engine) = Some [False] \<and>
            matched_flags (buy_call t2 (snd (buy_call t1 buy_engine))) = Some [False] \<and>
            matched_flags (buy_call t3 (snd (buy_call t2 (snd (buy_call t1 buy_engine)))))
              = Some [True] \<and>
            matched_flags (buy_call t4 (snd (buy_call t3 (snd (buy_call t2
              (snd (buy_call t1 buy_engine))))))) = Some [False])"
proof -
  from assms have n0: "n \<noteq> 0" by simp
  have fresh: "(tracked_entry tr tok conv acct (id_rule r) = None \<or>
           (\<exists>e. tracked_entry tr tok conv acct (id_rule r) = Some e \<and> windowEnd e < now)) \<longrightarrow>
            fst (ThresholdTracker_check now r tok conv acct tr) = (n = 1) \<and>
            tracked_entry (snd (ThresholdTracker_check now r tok conv acct tr)) tok conv acct
              (id_rule r) = Some (fresh_entry now w)"
    using check_fresh [OF assms(1) n0 assms(3) assms(4)] by blast
  have counted: "\<forall>e. tracked_entry tr tok conv acct (id_rule r) = Some e \<and> now \<le> windowEnd e \<longrightarrow>
            fst (ThresholdTracker_check now r tok conv acct tr) = (n \<le> count e + 1) \<and>
            tracked_entry (snd (ThresholdTracker_check now r tok conv acct tr)) tok conv acct
              (id_rule r) = (if n \<le> count e + 1 then None else Some (e\<lparr>count := count e + 1\<rparr>))"
    using check_count [OF assms(1) n0 assms(3) assms(4)] by blast
  show ?thesis
    using fresh counted buy_scenario by blast
qed

theorem threshold_check_policy_witness:
  "threshold buy_rule = Some 3 \<and> window buy_rule = Some 10 \<and>
   tracked_entry Map.empty ''user1'' ''conv1'' None (id_rule buy_rule) = None \<and>
   \<not> fst (ThresholdTracker_check 1000 buy_rule ''user1'' ''conv1'' None Map.empty) \<and>
   tracked_entry (snd (ThresholdTracker_check 1000 buy_rule ''user1'' ''conv1'' None Map.empty))
     ''user1'' ''conv1'' None (id_rule buy_rule)
     = Some \<lparr>count = 1, firstMatch = 1000, windowEnd = 11000\<rparr> \<and>
   fst (ThresholdTracker_check 3000 buy_rule ''user1'' ''conv1'' None two_counted) \<and>
   tracked_entry (snd (ThresholdTracker_check 3000 buy_rule ''user1'' ''conv1'' None two_counted))
     ''user1'' ''conv1'' None (id_rule buy_rule) = None \<and>
   matched_flags (buy_call 14000 (snd (buy_call 3000 (snd (buy_call 2000
     (snd (buy_call 1000 buy_engine))))))) = Some [False]"
proof -
  have th: "threshold buy_rule = Some 3" and wi: "window buy_rule = Some 10"
    by (simp_all add: buy_rule_def plain_rule_def)
  have e0: "tracked_entry Map.empty ''user1'' ''conv1'' None (id_rule buy_rule) = None"
    by (simp add: tracked_entry_def)
  have e2: "tracked_entry two_counted
          ''user1'' ''conv1'' None (id_rule buy_rule)
        = Some \<lparr>count = 2, firstMatch = 1000, windowEnd = 11000\<rparr>"
    by (simp add: two_counted_def tracked_entry_def getKey_def or_empty_def buy_rule_def plain_rule_def)
  have le: "(1::int) \<le> 3" and nz: "(10::int) \<noteq> 0"
    by simp_all
  note a = threshold_check_policy [OF th le wi nz, of Map.empty "''user1''" "''conv1''" None 1000]
  note b = threshold_check_policy [OF th le wi nz, of two_counted "''user1''" "''conv1''" None 3000]
  note c = a [THEN conjunct2, THEN conjunct2, rule_format, of 1000 2000 3000 14000]
  from a e0 have p1: "\<not> fst (ThresholdTracker_check 1000 buy_rule ''user1'' ''conv1'' None Map.empty)"
    and p2: "tracked_entry (snd (ThresholdTracker_check 1000 buy_rule ''user1'' ''conv1'' None Map.empty))
     ''user1'' ''conv1'' None (id_rule buy_rule)
     = Some \<lparr>count = 1, firstMatch = 1000, windowEnd = 11000\<rparr>"
    by (simp_all add: fresh_entry_def)
  from b e2 have p3: "fst (ThresholdTracker_check 3000 buy_rule ''user1'' ''conv1'' None two_counted)"
    and p4: "tracked_entry (snd (ThresholdTracker_check 3000 buy_rule ''user1'' ''conv1'' None two_counted))
     ''user1'' ''conv1'' None (id_rule buy_rule) = None"
    by simp_all
  from c have p5: "matched_flags (buy_call 14000 (snd (buy_call 3000 (snd (buy_call 2000
     (snd (buy_call 1000 buy_engine))))))) = Some [False]"
    by simp
  show ?thesis using th wi e0 p1 p2 p3 p4 p5 by blast
qed

subsection \<open>The outcomes of the loop body\<close>

lemma eval_rule_cases [case_names throw skip gated fired]:
  obtains
    (throw) e rc' where
      "run_stages rt (semanticMatcher (world ls)) r (message ctx) (regexCache (world ls))
         = (Inl e, rc')"
      "eval_rule rt now ctx r ls = Throw e (ls\<lparr>world := (world ls)\<lparr>regexCache := rc'\<rparr>\<rparr>)"
  | (skip) rc' where
      "run_stages rt (semanticMatcher (world ls)) r (message ctx) (regexCache (world ls))
         = (Inr None, rc')"
      "eval_rule rt now ctx r ls = Continue (ls\<lparr>world := (world ls)\<lparr>regexCache := rc'\<rparr>\<rparr>)"
  | (gated) l rc' tr' where
      "run_stages rt (semanticMatcher (world ls)) r (message ctx) (regexCache (world ls))
         = (Inr (Some l), rc')"
      "ThresholdTracker_check now r (tokenId ctx) (conversationId ctx) (accountId ctx)
         (thresholdTracker (world ls)) = (False, tr')"
      "eval_rule rt now ctx r ls =
         Continue (ls\<lparr>results := results ls @ [nonmatch_result now now r],
                     world := (world ls)\<lparr>regexCache := rc', thresholdTracker := tr'\<rparr>\<rparr>)"
  | (fired) l rc' tr' st' w2 where
      "run_stages rt (semanticMatcher (world ls)) r (message ctx) (regexCache (world ls))
         = (Inr (Some l), rc')"
      "ThresholdTracker_check now r (tokenId ctx) (conversationId ctx) (accountId ctx)
         (thresholdTracker (world ls)) = (True, tr')"
      "updateState now r ctx (state_cur ls)
         ((world ls)\<lparr>regexCache := rc', thresholdTracker := tr'\<rparr>) = (st', w2)"
      "eval_rule rt now ctx r ls =
         (if action r = Block \<and> severity r = Critical then Break else Continue)
           (ls\<lparr>results := results ls @ [match_result now now r st' l],
               state_cur := st', world := w2\<rparr>)"
proof (cases "run_stages rt (semanticMatcher (world ls)) r (message ctx) (regexCache (world ls))")
  case (Pair x rc')
  show ?thesis
  proof (cases x)
    case (Inl e)
    with Pair throw show ?thesis by (simp add: eval_rule_def)
  next
    case (Inr lo)
    show ?thesis
    proof (cases lo)
      case None
      with Pair Inr skip show ?thesis by (simp add: eval_rule_def)
    next
      case (Some l)
      obtain met tr' where chk:
        "ThresholdTracker_check now r (tokenId ctx) (conversationId ctx) (accountId ctx)
           (thresholdTracker (world ls)) = (met, tr')"
        by (cases "ThresholdTracker_check now r (tokenId ctx) (conversationId ctx)
                     (accountId ctx) (thresholdTracker (world ls))")
      show ?thesis
      proof (cases met)
        case False
        with Pair Inr Some chk gated [of l rc' tr'] show ?thesis
          by (simp add: eval_rule_def threshold_gate_def)
      next
        case True
        obtain st' w2 where up:
          "updateState now r ctx (state_cur ls)
             ((world ls)\<lparr>regexCache := rc', thresholdTracker := tr'\<rparr>) = (st', w2)"
          by (cases "updateState now r ctx (state_cur ls)
                       ((world ls)\<lparr>regexCache := rc', thresholdTracker := tr'\<rparr>)")
        with Pair Inr Some chk True fired [of l rc' tr' st' w2] show ?thesis
          by (cases "action r = Block \<and> severity r = Critical")
             (simp_all add: eval_rule_def threshold_gate_def Let_def)
      qed
    qed
  qed
qed

lemma eval_rule_results:
  "(case eval_rule rt now ctx r ls of
      Continue ls' \<Rightarrow> results ls' = results ls \<or>
                      (\<exists>res. results ls' = results ls @ [res] \<and> rule res = r \<and> \<not> critical_hit res)
    | Break ls' \<Rightarrow> (\<exists>res. results ls' = results ls @ [res] \<and> rule res = r \<and> critical_hit res)
    | Throw e ls' \<Rightarrow> results ls' = results ls)"
  by (cases rule: eval_rule_cases [where rt=rt and now=now and ctx=ctx and r=r and ls=ls])
     (auto simp: critical_hit_def nonmatch_result_def match_result_def)

lemma eval_loop_critical_last:
  "eval_loop rt now ctx rs ls = (e, ls') \<Longrightarrow> \<not> list_ex critical_hit (results ls) \<Longrightarrow>
     \<forall>i < length (results ls'). critical_hit (results ls' ! i) \<longrightarrow> Suc i = length (results ls')"
proof (induction rs arbitrary: ls)
  case Nil
  then show ?case by (auto simp: list_ex_iff)
next
  case (Cons r rs)
  show ?case
  proof (cases "eval_rule rt now ctx r ls")
    case (Continue l1)
    with eval_rule_results [where rt=rt and now=now and ctx=ctx and r=r and ls=ls] Cons.prems(2)
    have "\<not> list_ex critical_hit (results l1)" by (auto simp: list_ex_iff)
    with Cons.IH [of l1] Cons.prems(1) Continue show ?thesis by simp
  next
    case (Break l1)
    with eval_rule_results [where rt=rt and now=now and ctx=ctx and r=r and ls=ls]
    obtain res where "results l1 = results ls @ [res]" by auto
    with Cons.prems Break show ?thesis
      by (auto simp: list_ex_iff nth_append less_Suc_eq)
  next
    case (Throw e1 l1)
    with eval_rule_results [where rt=rt and now=now and ctx=ctx and r=r and ls=ls] Cons.prems
    show ?thesis by (auto simp: list_ex_iff)
  qed
qed

lemma evaluate_results:
  assumes "fst (evaluate rt now ctx w) = Inr res"
  obtains st w1 ls where
    "hydrate now ctx w = (Inr st, w1)"
    "eval_loop rt now ctx (preFilterRules (rules w1) (heap w1) st)
       \<lparr>results = [], state_cur = st, world = w1\<rparr> = (None, ls)"
    "results ls = res"
  using assms
  by (auto simp: evaluate_def Let_def split: prod.splits sum.splits option.splits)

subsection \<open>Priority order\<close>

text \<open>
  Claim C2, on the input that shows the defect. The rules
  \<open>{id: 'p', content: ['test'], action: 'pass'}\<close> and
  \<open>{id: 'b', content: ['test'], action: 'block', severity: 'high'}\<close> have the same type
  cost 1. \<^verbatim>\<open>actionPriority['pass']\<close> is 0, which is falsy, so
  \<^verbatim>\<open>actionPriority[rule.action] || 5\<close> gives the pass rule the weight 5 and the key 51,
  above the key 41 of the block rule: \<^verbatim>\<open>loadRules\<close> puts the block rule first, and
  \<^verbatim>\<open>evaluate\<close> on the message \<open>'test message'\<close> returns the block rule's result before
  the pass rule's.
\<close>

theorem pass_rule_sorted_after_block:
  "actionPriority Pass = Some 0 \<and>
   getRulePriority pass_rule = 51 \<and> getRulePriority block_rule = 41 \<and>
   rules pass_block_engine = [block_rule, pass_rule] \<and>
   result_ids (evaluate lit_runtime 1000 (ctx_of ''test'' ''test'' None ''test message'')
                 pass_block_engine) = Some [''b'', ''p'']"
  by (simp add: result_ids_def pass_block_engine_def pass_rule_def block_rule_def engine_defs
        Let_def)

subsection \<open>Early exit\<close>

text \<open>
  Claim C7. When a rule with action \<open>block\<close> and severity \<open>critical\<close> fires, the loop
  body ends in \<^verbatim>\<open>break\<close>: whatever rules follow in the priority order, the loop
  returns the state reached right after that rule, so none of them is evaluated.
  Hence in every result list that \<^verbatim>\<open>evaluate\<close> returns, a \<open>matched = true\<close> result of
  such a rule is the last result.
\<close>

theorem critical_block_breaks:
  "(\<forall>ls'. eval_rule rt now ctx r ls = Break ls' \<longleftrightarrow>
       (\<exists>res. results ls' = results ls @ [res] \<and> rule res = r \<and> critical_hit res) \<and>
       state_of (eval_rule rt now ctx r ls) = ls') \<and>
   (\<forall>ls' rs. eval_rule rt now ctx r ls = Break ls' \<longrightarrow>
       eval_loop rt now ctx (r # rs) ls = (None, ls')) \<and>
   (\<forall>res. fst (evaluate rt now ctx w) = Inr res \<longrightarrow>
       (\<forall>i < length res. critical_hit (res ! i) \<longrightarrow> Suc i = length res))"
proof (intro conjI allI impI)
  fix ls'
  show "eval_rule rt now ctx r ls = Break ls' \<longleftrightarrow>
       (\<exists>res. results ls' = results ls @ [res] \<and> rule res = r \<and> critical_hit res) \<and>
       state_of (eval_rule rt now ctx r ls) = ls'"
    using eval_rule_results [where rt=rt and now=now and ctx=ctx and r=r and ls=ls]
    by (cases "eval_rule rt now ctx r ls") auto
next
  fix ls' rs
  assume "eval_rule rt now ctx r ls = Break ls'"
  then show "eval_loop rt now ctx (r # rs) ls = (None, ls')" by simp
next
  fix res i
  assume ev: "fst (evaluate rt now ctx w) = Inr res" and i: "i < length res"
    and hit: "critical_hit (res ! i)"
  from ev obtain st w1 ls where
    loop: "eval_loop rt now ctx (preFilterRules (rules w1) (heap w1) st)
       \<lparr>results = [], state_cur = st, world = w1\<rparr> = (None, ls)"
    and res: "results ls = res"
    by (rule evaluate_results)
  from eval_loop_critical_last [OF loop] res i hit show "Suc i = length res" by simp
qed

theorem critical_block_breaks_witness:
  "rules sql_engine = [sql_rule, sanitize_rule] \<and>
   eval_rule lit_runtime 1000 sql_ctx sql_rule (loop_start 1000 sql_ctx sql_engine)
     = Break (state_of (eval_rule lit_runtime 1000 sql_ctx sql_rule
                (loop_start 1000 sql_ctx sql_engine))) \<and>
   eval_loop lit_runtime 1000 sql_ctx [sql_rule, sanitize_rule]
       (loop_start 1000 sql_ctx sql_engine)
     = (None, state_of (eval_rule lit_runtime 1000 sql_ctx sql_rule
                (loop_start 1000 sql_ctx sql_engine))) \<and>
   fst (evaluate lit_runtime 1000 sql_ctx sql_engine)
     = Inr (projr (fst (evaluate lit_runtime 1000 sql_ctx sql_engine))) \<and>
   critical_hit (projr (fst (evaluate lit_runtime 1000 sql_ctx sql_engine)) ! 0) \<and>
   length (projr (fst (evaluate lit_runtime 1000 sql_ctx sql_engine))) = Suc 0"
proof -
  have rs: "rules sql_engine = [sql_rule, sanitize_rule]"
    by (simp add: sql_engine_def sql_rule_def sanitize_rule_def engine_defs)
  have "case eval_rule lit_runtime 1000 sql_ctx sql_rule (loop_start 1000 sql_ctx sql_engine) of
          Break x \<Rightarrow> True | _ \<Rightarrow> False"
    by (simp add: loop_start_def sql_ctx_def sql_engine_def sql_rule_def sanitize_rule_def
          engine_defs lit_runtime_def lit_RegExp_new_def is_syntax_char_def falsy_str_def
          RegexCache_get_def Let_def)
  then have br: "eval_rule lit_runtime 1000 sql_ctx sql_rule (loop_start 1000 sql_ctx sql_engine)
     = Break (state_of (eval_rule lit_runtime 1000 sql_ctx sql_rule
                (loop_start 1000 sql_ctx sql_engine)))"
    by (cases "eval_rule lit_runtime 1000 sql_ctx sql_rule (loop_start 1000 sql_ctx sql_engine)")
       simp_all
  have "\<exists>res. fst (evaluate lit_runtime 1000 sql_ctx sql_engine) = Inr [res] \<and> critical_hit res"
    by (simp add: critical_hit_def sql_ctx_def sql_engine_def sql_rule_def sanitize_rule_def
          engine_defs lit_runtime_def lit_RegExp_new_def is_syntax_char_def falsy_str_def
          RegexCache_get_def Let_def)
  then obtain res where ev1: "fst (evaluate lit_runtime 1000 sql_ctx sql_engine) = Inr [res]"
    and hit1: "critical_hit res"
    by blast
  from ev1 hit1 have ev: "fst (evaluate lit_runtime 1000 sql_ctx sql_engine)
     = Inr (projr (fst (evaluate lit_runtime 1000 sql_ctx sql_engine)))"
    and hit: "critical_hit (projr (fst (evaluate lit_runtime 1000 sql_ctx sql_engine)) ! 0)"
    and len: "0 < length (projr (fst (evaluate lit_runtime 1000 sql_ctx sql_engine)))"
    by simp_all
  note t = critical_block_breaks [where rt = lit_runtime and now = 1000 and ctx = sql_ctx
      and r = sql_rule and ls = "loop_start 1000 sql_ctx sql_engine" and w = sql_engine]
  from t br have lp: "eval_loop lit_runtime 1000 sql_ctx [sql_rule, sanitize_rule]
       (loop_start 1000 sql_ctx sql_engine)
     = (None, state_of (eval_rule lit_runtime 1000 sql_ctx sql_rule
                (loop_start 1000 sql_ctx sql_engine)))"
    by blast
  from t ev len hit
  have "Suc 0 = length (projr (fst (evaluate lit_runtime 1000 sql_ctx sql_engine)))"
    by blast
  with rs br lp ev hit show ?thesis by simp
qed

subsection \<open>The matching stages\<close>

lemma pcre_every_fst:
  "fst (pcre_every rt fl msg ps rc mp) = fst (pcre_every rt fl msg ps rc mp')"
  by (induction ps arbitrary: rc mp mp')
     (auto split: prod.splits sum.splits option.splits)

lemma pcre_stage_result:
  assumes "pcre_stage rt r msg rc l = (Inr res, rc')"
  shows "(res \<noteq> None) = (arr (pcre r) = [] \<or> pcre_passes rt r msg rc)"
    and "res = Some l' \<Longrightarrow> matched_l l' = (matched_l l \<or> arr (pcre r) \<noteq> [])"
  using assms pcre_every_fst [of rt "if nocase_on r then ''gi'' else ''g''" msg "arr (pcre r)" rc "matchedPattern_l l" None]
  by (auto simp: pcre_stage_def pcre_passes_def split: prod.splits sum.splits if_splits)

lemma content_stage_result:
  "(content_stage r msg l \<noteq> None) = (arr (content r) = [] \<or> allKeywordsFound r msg)"
  "content_stage r msg l = Some l' \<Longrightarrow> matched_l l' = (matched_l l \<or> arr (content r) \<noteq> [])"
  by (auto simp: content_stage_def split: if_splits)

lemma semantic_stage_result:
  assumes "semantic_stage rt matcher r msg l = Inr res"
  shows "(res \<noteq> None \<and> matched_l (the res)) =
           (matched_l l \<or> (semantic_declared matcher r \<and> semantic_passes matcher r msg))"
  using assms
  by (auto simp: semantic_stage_def semantic_declared_def semantic_passes_def
           split: option.splits sum.splits if_splits)

lemma run_stages_matched:
  assumes "run_stages rt matcher r msg rc = (Inr res, rc')"
  shows "(res \<noteq> None) = stages_matched rt matcher r msg rc"
proof (cases "content_stage r msg \<lparr>matched_l = False, matchedPattern_l = None, similarity_l = None\<rparr>")
  case None
  with assms content_stage_result(1) [of r msg "\<lparr>matched_l = False, matchedPattern_l = None, similarity_l = None\<rparr>"]
  show ?thesis by (auto simp: run_stages_def stages_matched_def)
next
  case (Some l1)
  note c1 = content_stage_result(1) [of r msg "\<lparr>matched_l = False, matchedPattern_l = None, similarity_l = None\<rparr>"]
  note c2 = content_stage_result(2) [OF Some]
  obtain x rc1 where p: "pcre_stage rt r msg rc l1 = (x, rc1)" by (cases "pcre_stage rt r msg rc l1")
  show ?thesis
  proof (cases x)
    case (Inl e)
    with assms Some p show ?thesis by (simp add: run_stages_def)
  next
    case (Inr lo)
    note p1 = pcre_stage_result(1) [OF p [unfolded Inr]]
    show ?thesis
    proof (cases lo)
      case None
      with assms Some p Inr p1 c1 show ?thesis by (auto simp: run_stages_def stages_matched_def)
    next
      case (Some l2)
      note p2 = pcre_stage_result(2) [OF p [unfolded Inr] Some]
      show ?thesis
      proof (cases "semantic_stage rt matcher r msg l2")
        case (Inl e)
        with assms \<open>content_stage _ _ _ = Some l1\<close> p Inr Some show ?thesis by (simp add: run_stages_def)
      next
        case (Inr so)
        from semantic_stage_result [OF Inr] c2 p2
        have "(so \<noteq> None \<and> matched_l (the so)) =
              (arr (content r) \<noteq> [] \<or> arr (pcre r) \<noteq> [] \<or> (semantic_declared matcher r \<and> semantic_passes matcher r msg))"
          by auto
        moreover from assms \<open>content_stage _ _ _ = Some l1\<close> p \<open>x = Inr lo\<close> Some Inr
        have "(res \<noteq> None) = (so \<noteq> None \<and> matched_l (the so))"
          by (auto simp: run_stages_def split: option.splits if_splits)
        moreover from c1 \<open>content_stage _ _ _ = Some l1\<close> have "arr (content r) = [] \<or> allKeywordsFound r msg" by simp
        moreover from p1 Some have "arr (pcre r) = [] \<or> pcre_passes rt r msg rc" by simp
        ultimately show ?thesis by (simp add: stages_matched_def)
      qed
    qed
  qed
qed

lemma no_stage_inputs_skip:
  assumes "no_stage_inputs r"
  shows "eval_rule rt now ctx r ls = Continue ls"
  using assms
  by (simp add: no_stage_inputs_def eval_rule_def run_stages_def content_stage_def
        pcre_stage_def semantic_stage_def split: option.splits)

lemmas scenario_defs = sql_ctx_def sql_engine_def sql_rule_def sanitize_rule_def
  hybrid_rule_def hybrid_engine_def limited_rule_def limited_engine_def buy_ctx_def
  empty_matcher_def check_only_rule_def check_only_engine_def flagged_heap_def flagged_ctx_def
  no_flags_def no_state_def loop_start_def
  lit_runtime_def lit_RegExp_new_def is_syntax_char_def falsy_str_def RegexCache_get_def

lemma eval_rule_push:
  assumes "results (state_of (eval_rule rt now ctx r ls)) = results ls @ [x]"
  obtains
    (gated) l rc' tr' where
      "run_stages rt (semanticMatcher (world ls)) r (message ctx) (regexCache (world ls))
         = (Inr (Some l), rc')"
      "ThresholdTracker_check now r (tokenId ctx) (conversationId ctx) (accountId ctx)
         (thresholdTracker (world ls)) = (False, tr')"
      "x = nonmatch_result now now r"
      "state_of (eval_rule rt now ctx r ls) =
         ls\<lparr>results := results ls @ [x],
            world := (world ls)\<lparr>regexCache := rc', thresholdTracker := tr'\<rparr>\<rparr>"
  | (fired) l rc' tr' st' w2 where
      "run_stages rt (semanticMatcher (world ls)) r (message ctx) (regexCache (world ls))
         = (Inr (Some l), rc')"
      "ThresholdTracker_check now r (tokenId ctx) (conversationId ctx) (accountId ctx)
         (thresholdTracker (world ls)) = (True, tr')"
      "updateState now r ctx (state_cur ls)
         ((world ls)\<lparr>regexCache := rc', thresholdTracker := tr'\<rparr>) = (st', w2)"
      "x = match_result now now r st' l"
      "state_of (eval_rule rt now ctx r ls) =
         ls\<lparr>results := results ls @ [x], state_cur := st', world := w2\<rparr>"
  using assms
  by (cases rule: eval_rule_cases [where rt=rt and now=now and ctx=ctx and r=r and ls=ls])
     (auto split: if_splits)

lemma eval_loop_results_inv:
  assumes step: "\<And>r ls x. results (state_of (eval_rule rt now ctx r ls)) = results ls @ [x] \<Longrightarrow> P x"
  shows "eval_loop rt now ctx rs ls = (e, ls') \<Longrightarrow> \<forall>x\<in>set (results ls). P x \<Longrightarrow>
           \<forall>x\<in>set (results ls'). P x"
proof (induction rs arbitrary: ls)
  case Nil
  then show ?case by simp
next
  case (Cons r rs)
  have inv: "\<forall>x\<in>set (results (state_of (eval_rule rt now ctx r ls))). P x"
    using eval_rule_results [where rt=rt and now=now and ctx=ctx and r=r and ls=ls]
      Cons.prems(2) step [of r ls]
    by (cases "eval_rule rt now ctx r ls") auto
  show ?case
  proof (cases "eval_rule rt now ctx r ls")
    case (Continue l1)
    with Cons.IH [of l1] Cons.prems(1) inv show ?thesis by simp
  next
    case (Break l1)
    with Cons.prems(1) inv show ?thesis by auto
  next
    case (Throw e1 l1)
    with Cons.prems(1) inv show ?thesis by auto
  qed
qed

lemma stages_matched_inputs: "stages_matched rt matcher r msg rc \<Longrightarrow> \<not> no_stage_inputs r"
  by (auto simp: stages_matched_def no_stage_inputs_def semantic_declared_def)

lemma eval_rule_push_matched:
  assumes "results (state_of (eval_rule rt now ctx r ls)) = results ls @ [x]"
  shows "stages_matched rt (semanticMatcher (world ls)) r (message ctx) (regexCache (world ls))"
    and "rule x = r"
  using assms
  by (cases rule: eval_rule_push [where rt=rt and now=now and ctx=ctx and r=r and ls=ls and x=x];
      auto simp: nonmatch_result_def match_result_def dest: run_stages_matched)+

subsection \<open>Rules without stage inputs\<close>

text \<open>
  Claim C3, as the code has it. The local \<^verbatim>\<open>matched\<close> starts as false and only a
  stage sets it, so a rule with no content, no pcre and no semantic input leaves the
  loop body at \<^verbatim>\<open>if (!matched) continue\<close>: the body changes nothing and pushes no
  result, whatever the flags of the state are. No result that \<^verbatim>\<open>evaluate\<close> returns
  belongs to such a rule.
\<close>

theorem stage_inputs_required:
  "(no_stage_inputs r \<longrightarrow> eval_rule rt now ctx r ls = Continue ls) \<and>
   (\<forall>res. fst (evaluate rt now ctx w) = Inr res \<longrightarrow> (\<forall>x\<in>set res. \<not> no_stage_inputs (rule x)))"
proof (intro conjI allI impI ballI)
  assume "no_stage_inputs r"
  then show "eval_rule rt now ctx r ls = Continue ls" by (rule no_stage_inputs_skip)
next
  fix res x
  assume ev: "fst (evaluate rt now ctx w) = Inr res" and x: "x \<in> set res"
  from ev obtain st w1 ls where
    loop: "eval_loop rt now ctx (preFilterRules (rules w1) (heap w1) st)
       \<lparr>results = [], state_cur = st, world = w1\<rparr> = (None, ls)"
    and res: "results ls = res"
    by (rule evaluate_results)
  have "\<forall>x\<in>set (results ls). \<not> no_stage_inputs (rule x)"
  proof (rule eval_loop_results_inv [OF _ loop])
    fix r' ls' x'
    assume "results (state_of (eval_rule rt now ctx r' ls')) = results ls' @ [x']"
    from eval_rule_push_matched [OF this] show "\<not> no_stage_inputs (rule x')"
      by (auto dest: stages_matched_inputs)
  qed simp
  with res x show "\<not> no_stage_inputs (rule x)" by simp
qed

theorem stage_inputs_required_witness:
  "no_stage_inputs check_only_rule \<and>
   eval_rule lit_runtime 1000 flagged_ctx check_only_rule
     (loop_start 1000 flagged_ctx check_only_engine) = Continue (loop_start 1000 flagged_ctx check_only_engine) \<and>
   (\<exists>x. fst (evaluate lit_runtime 1000 sql_ctx sql_engine) = Inr [x] \<and> \<not> no_stage_inputs (rule x))"
proof -
  have n: "no_stage_inputs check_only_rule"
    by (simp add: no_stage_inputs_def check_only_rule_def plain_rule_def arr_def)
  have "\<exists>x. fst (evaluate lit_runtime 1000 sql_ctx sql_engine) = Inr [x]"
    by (simp add: scenario_defs engine_defs Let_def)
  then obtain x where ev: "fst (evaluate lit_runtime 1000 sql_ctx sql_engine) = Inr [x]"
    by blast
  note t = stage_inputs_required [where r = check_only_rule and rt = lit_runtime and now = 1000
      and w = sql_engine and ls = "loop_start 1000 flagged_ctx check_only_engine"]
  from t n have c: "eval_rule lit_runtime 1000 flagged_ctx check_only_rule
     (loop_start 1000 flagged_ctx check_only_engine) = Continue (loop_start 1000 flagged_ctx check_only_engine)"
    by blast
  from t ev have "\<not> no_stage_inputs (rule x)"
    by (metis list.set_intros(1))
  with n c ev show ?thesis by blast
qed

text \<open>
  Claim C3 as stated fails: the rule \<open>{flags: {check: ['s1']}, action: 'block'}\<close> has no
  stage input, the flag \<open>s1\<close> is true in the state given to \<^verbatim>\<open>evaluate\<close>, the rule
  passes the pre-filter, and \<^verbatim>\<open>evaluate\<close> returns no result.
\<close>

theorem check_only_rule_unmatched:
  "arr (content check_only_rule) = [] \<and> arr (pcre check_only_rule) = [] \<and>
   arr (semantic check_only_rule) = [] \<and>
   state_flag (heap check_only_engine) 2 ''s1'' = Some True \<and>
   preFilterRules (rules check_only_engine) (heap check_only_engine) 2 = [check_only_rule] \<and>
   fst (evaluate lit_runtime 1000 flagged_ctx check_only_engine) = Inr []"
  by (simp add: scenario_defs engine_defs Let_def)

subsection \<open>Which stages decide a match\<close>

text \<open>
  Claim C1, as the code has it. When the three stages raise no exception, the loop body
  reaches the threshold check iff the content stage passes where the rule has keywords,
  the pcre stage passes where the rule has patterns, and at least one stage is there and
  passes: keywords, patterns, or a declared semantic stage that finds the rule. A
  declared semantic stage that finds nothing skips the rule only when the rule has
  neither keywords nor patterns (\<^verbatim>\<open>else if (!matched) continue\<close>). Every
  \<open>matched = true\<close> result that the loop body pushes belongs to a rule for which this
  condition holds.
\<close>

theorem stages_decide_match:
  "(\<forall>res rc'. run_stages rt matcher r msg rc = (Inr res, rc') \<longrightarrow>
       (res \<noteq> None) = stages_matched rt matcher r msg rc) \<and>
   (\<forall>x. results (state_of (eval_rule rt now ctx r ls)) = results ls @ [x] \<and> matched x \<longrightarrow>
       rule x = r \<and>
       stages_matched rt (semanticMatcher (world ls)) r (message ctx) (regexCache (world ls))) \<and>
   (stages_matched rt matcher r msg rc \<longleftrightarrow>
       (arr (content r) = [] \<or> allKeywordsFound r msg) \<and>
       (arr (pcre r) = [] \<or> pcre_passes rt r msg rc) \<and>
       (arr (content r) \<noteq> [] \<or> arr (pcre r) \<noteq> [] \<or>
        (semantic_declared matcher r \<and> semantic_passes matcher r msg)))"
  using run_stages_matched [of rt matcher r msg rc]
    eval_rule_push_matched [of rt now ctx r ls]
  by (auto simp: stages_matched_def)

theorem stages_decide_match_witness:
  "run_stages lit_runtime (Some empty_matcher) hybrid_rule ''buy now'' Map.empty
     = (Inr (Some \<lparr>matched_l = True, matchedPattern_l = Some ''buy'', similarity_l = None\<rparr>),
        Map.empty) \<and>
   stages_matched lit_runtime (Some empty_matcher) hybrid_rule ''buy now'' Map.empty \<and>
   (\<exists>x. results (state_of (eval_rule lit_runtime 1000 buy_ctx hybrid_rule
                  (loop_start 1000 buy_ctx hybrid_engine)))
          = results (loop_start 1000 buy_ctx hybrid_engine) @ [x] \<and> matched x \<and>
        rule x = hybrid_rule) \<and>
   allKeywordsFound hybrid_rule ''buy now'' \<and>
   semantic_declared (Some empty_matcher) hybrid_rule \<and>
   \<not> semantic_passes (Some empty_matcher) hybrid_rule ''buy now''"
proof -
  have rs: "run_stages lit_runtime (Some empty_matcher) hybrid_rule ''buy now'' Map.empty
     = (Inr (Some \<lparr>matched_l = True, matchedPattern_l = Some ''buy'', similarity_l = None\<rparr>),
        Map.empty)"
    by (simp add: scenario_defs engine_defs)
  have "\<exists>x. results (state_of (eval_rule lit_runtime 1000 buy_ctx hybrid_rule
                  (loop_start 1000 buy_ctx hybrid_engine)))
          = results (loop_start 1000 buy_ctx hybrid_engine) @ [x] \<and> matched x"
    by (simp add: scenario_defs engine_defs Let_def)
  then obtain x where px: "results (state_of (eval_rule lit_runtime 1000 buy_ctx hybrid_rule
                  (loop_start 1000 buy_ctx hybrid_engine)))
          = results (loop_start 1000 buy_ctx hybrid_engine) @ [x] \<and> matched x"
    by blast
  note t = stages_decide_match [where rt = lit_runtime and matcher = "Some empty_matcher"
      and r = hybrid_rule and msg = "''buy now''" and rc = Map.empty and now = 1000
      and ctx = buy_ctx and ls = "loop_start 1000 buy_ctx hybrid_engine"]
  from t rs have sm: "stages_matched lit_runtime (Some empty_matcher) hybrid_rule ''buy now'' Map.empty"
    by blast
  from t px have rx: "rule x = hybrid_rule"
    by blast
  from t sm have kw: "allKeywordsFound hybrid_rule ''buy now''"
    by (simp add: hybrid_rule_def plain_rule_def arr_def)
  have sd: "semantic_declared (Some empty_matcher) hybrid_rule"
    and sp: "\<not> semantic_passes (Some empty_matcher) hybrid_rule ''buy now''"
    by (simp_all add: semantic_declared_def semantic_passes_def scenario_defs engine_defs)
  from rs sm px rx kw sd sp show ?thesis by blast
qed

text \<open>
  Claim C1 as stated fails: the rule \<open>{content: ['buy'], semantic: ['purchase immediately']}\<close>
  declares a semantic stage, the matcher returns no entry for it on the message
  \<open>'buy now'\<close>, and \<^verbatim>\<open>evaluate\<close> still returns a \<open>matched = true\<close> result for the rule.
\<close>

theorem semantic_miss_still_matches:
  "semantic_declared (semanticMatcher hybrid_engine) hybrid_rule \<and>
   \<not> semantic_passes (semanticMatcher hybrid_engine) hybrid_rule (message buy_ctx) \<and>
   matched_flags (evaluate lit_runtime 1000 buy_ctx hybrid_engine) = Some [True] \<and>
   result_ids (evaluate lit_runtime 1000 buy_ctx hybrid_engine) = Some [''hyb-001'']"
  by (simp add: semantic_declared_def semantic_passes_def matched_flags_def result_ids_def
        scenario_defs engine_defs Let_def)

subsection \<open>Results gated by the threshold\<close>

text \<open>
  Claim C8, as the code has it. The loop body pushes a \<open>matched = false\<close> result iff the
  stages end without exception with \<^verbatim>\<open>matched\<close> true (the condition of claim C1 as
  amended) and the threshold check returns false. Such a result carries the rule, the
  reason \<open>Threshold not met (X in Ys)\<close> with the rule's threshold and window, and no
  state; the body then leaves the variable \<^verbatim>\<open>state\<close>, the object store and the
  state cache as they were. Every \<open>matched = false\<close> result that \<^verbatim>\<open>evaluate\<close> returns
  has that reason and no state.
\<close>

theorem threshold_gated_result:
  "((\<exists>x. results (state_of (eval_rule rt now ctx r ls)) = results ls @ [x] \<and> \<not> matched x) \<longleftrightarrow>
      (\<exists>l rc'. run_stages rt (semanticMatcher (world ls)) r (message ctx) (regexCache (world ls))
                 = (Inr (Some l), rc')) \<and>
      \<not> fst (ThresholdTracker_check now r (tokenId ctx) (conversationId ctx) (accountId ctx)
               (thresholdTracker (world ls)))) \<and>
   (\<forall>x. results (state_of (eval_rule rt now ctx r ls)) = results ls @ [x] \<and> \<not> matched x \<longrightarrow>
      stages_matched rt (semanticMatcher (world ls)) r (message ctx) (regexCache (world ls)) \<and>
      rule x = r \<and>
      reason x = Some (''Threshold not met ('' @ template_num (threshold r) @ '' in ''
                        @ template_num (window r) @ ''s)'') \<and>
      state_res x = None \<and>
      state_cur (state_of (eval_rule rt now ctx r ls)) = state_cur ls \<and>
      heap (world (state_of (eval_rule rt now ctx r ls))) = heap (world ls) \<and>
      stateCache (world (state_of (eval_rule rt now ctx r ls))) = stateCache (world ls)) \<and>
   (\<forall>res. fst (evaluate rt now ctx w) = Inr res \<longrightarrow>
      (\<forall>x\<in>set res. \<not> matched x \<longrightarrow>
         reason x = Some (''Threshold not met ('' @ template_num (threshold (rule x)) @ '' in ''
                           @ template_num (window (rule x)) @ ''s)'') \<and>
         state_res x = None))"
proof -
  have A: "(\<exists>x. results (state_of (eval_rule rt now ctx r ls)) = results ls @ [x] \<and> \<not> matched x) \<longleftrightarrow>
      (\<exists>l rc'. run_stages rt (semanticMatcher (world ls)) r (message ctx) (regexCache (world ls))
                 = (Inr (Some l), rc')) \<and>
      \<not> fst (ThresholdTracker_check now r (tokenId ctx) (conversationId ctx) (accountId ctx)
               (thresholdTracker (world ls)))"
    by (cases rule: eval_rule_cases [where rt=rt and now=now and ctx=ctx and r=r and ls=ls])
       (auto simp: nonmatch_result_def match_result_def split: if_splits)
  have B: "stages_matched rt (semanticMatcher (world ls)) r (message ctx) (regexCache (world ls)) \<and>
      rule x = r \<and>
      reason x = Some (''Threshold not met ('' @ template_num (threshold r) @ '' in ''
                        @ template_num (window r) @ ''s)'') \<and>
      state_res x = None \<and>
      state_cur (state_of (eval_rule rt now ctx r ls)) = state_cur ls \<and>
      heap (world (state_of (eval_rule rt now ctx r ls))) = heap (world ls) \<and>
      stateCache (world (state_of (eval_rule rt now ctx r ls))) = stateCache (world ls)"
    if a: "results (state_of (eval_rule rt now ctx r ls)) = results ls @ [x] \<and> \<not> matched x" for x
  proof -
  from a have push: "results (state_of (eval_rule rt now ctx r ls)) = results ls @ [x]"
    and nm: "\<not> matched x" by simp_all
  from eval_rule_push_matched [OF push]
  have sm: "stages_matched rt (semanticMatcher (world ls)) r (message ctx) (regexCache (world ls))"
    and rx: "rule x = r" by simp_all
  from push nm have rest: "reason x = Some (threshold_reason r) \<and> state_res x = None \<and>
      state_cur (state_of (eval_rule rt now ctx r ls)) = state_cur ls \<and>
      heap (world (state_of (eval_rule rt now ctx r ls))) = heap (world ls) \<and>
      stateCache (world (state_of (eval_rule rt now ctx r ls))) = stateCache (world ls)"
    by (cases rule: eval_rule_push [where rt=rt and now=now and ctx=ctx and r=r and ls=ls and x=x])
       (auto simp: nonmatch_result_def match_result_def)
  with sm rx show "stages_matched rt (semanticMatcher (world ls)) r (message ctx) (regexCache (world ls)) \<and>
      rule x = r \<and>
      reason x = Some (''Threshold not met ('' @ template_num (threshold r) @ '' in ''
                        @ template_num (window r) @ ''s)'') \<and>
      state_res x = None \<and>
      state_cur (state_of (eval_rule rt now ctx r ls)) = state_cur ls \<and>
      heap (world (state_of (eval_rule rt now ctx r ls))) = heap (world ls) \<and>
      stateCache (world (state_of (eval_rule rt now ctx r ls))) = stateCache (world ls)"
    by (simp add: threshold_reason_def)
  qed
  have C: "\<forall>x\<in>set res. \<not> matched x \<longrightarrow>
         reason x = Some (''Threshold not met ('' @ template_num (threshold (rule x)) @ '' in ''
                           @ template_num (window (rule x)) @ ''s)'') \<and>
         state_res x = None"
    if ev: "fst (evaluate rt now ctx w) = Inr res" for res
  proof -
  from ev obtain st w1 ls where
    loop: "eval_loop rt now ctx (preFilterRules (rules w1) (heap w1) st)
       \<lparr>results = [], state_cur = st, world = w1\<rparr> = (None, ls)"
    and res: "results ls = res"
    by (rule evaluate_results)
  have "\<forall>x\<in>set (results ls). \<not> matched x \<longrightarrow>
         reason x = Some (threshold_reason (rule x)) \<and> state_res x = None"
  proof (rule eval_loop_results_inv [OF _ loop])
    fix r' ls' x'
    assume p: "results (state_of (eval_rule rt now ctx r' ls')) = results ls' @ [x']"
    then show "\<not> matched x' \<longrightarrow> reason x' = Some (threshold_reason (rule x')) \<and> state_res x' = None"
      by (cases rule: eval_rule_push [where rt=rt and now=now and ctx=ctx and r=r' and ls=ls' and x=x'])
         (auto simp: nonmatch_result_def match_result_def)
  qed simp
  with res show "\<forall>x\<in>set res. \<not> matched x \<longrightarrow>
         reason x = Some (''Threshold not met ('' @ template_num (threshold (rule x)) @ '' in ''
                           @ template_num (window (rule x)) @ ''s)'') \<and>
         state_res x = None"
    by (simp add: threshold_reason_def)
  qed
  show ?thesis
    using A B C by blast
qed

theorem threshold_gated_result_witness:
  "(\<exists>x. results (state_of (eval_rule lit_runtime 1000 buy_ctx limited_rule
                  (loop_start 1000 buy_ctx limited_engine)))
          = results (loop_start 1000 buy_ctx limited_engine) @ [x] \<and> \<not> matched x \<and>
        reason x = Some ''Threshold not met (3 in 10s)'') \<and>
   \<not> fst (ThresholdTracker_check 1000 limited_rule (tokenId buy_ctx) (conversationId buy_ctx)
            (accountId buy_ctx) (thresholdTracker (world (loop_start 1000 buy_ctx limited_engine)))) \<and>
   stateCache (world (state_of (eval_rule lit_runtime 1000 buy_ctx limited_rule
                  (loop_start 1000 buy_ctx limited_engine))))
     = stateCache (world (loop_start 1000 buy_ctx limited_engine)) \<and>
   (\<exists>y. fst (evaluate lit_runtime 1000 buy_ctx limited_engine) = Inr [y] \<and> \<not> matched y \<and>
        reason y = Some ''Threshold not met (3 in 10s)'' \<and> state_res y = None)"
proof -
  have "\<exists>x. results (state_of (eval_rule lit_runtime 1000 buy_ctx limited_rule
                  (loop_start 1000 buy_ctx limited_engine)))
          = results (loop_start 1000 buy_ctx limited_engine) @ [x] \<and> \<not> matched x"
    by (simp add: scenario_defs engine_defs Let_def)
  then obtain x where px: "results (state_of (eval_rule lit_runtime 1000 buy_ctx limited_rule
                  (loop_start 1000 buy_ctx limited_engine)))
          = results (loop_start 1000 buy_ctx limited_engine) @ [x] \<and> \<not> matched x"
    by blast
  have "\<exists>y. fst (evaluate lit_runtime 1000 buy_ctx limited_engine) = Inr [y] \<and> \<not> matched y \<and> rule y = limited_rule"
    by (simp add: scenario_defs engine_defs Let_def)
  then obtain y where ev: "fst (evaluate lit_runtime 1000 buy_ctx limited_engine) = Inr [y]"
    and my: "\<not> matched y" and ry: "rule y = limited_rule"
    by blast
  have tn: "template_num (threshold limited_rule) = ''3''" "template_num (window limited_rule) = ''10''"
    by (simp_all add: limited_rule_def plain_rule_def template_num_def num_to_string_def)
  note t = threshold_gated_result [where rt = lit_runtime and now = 1000 and ctx = buy_ctx
      and r = limited_rule and ls = "loop_start 1000 buy_ctx limited_engine" and w = limited_engine]
  from t px have c1: "\<not> fst (ThresholdTracker_check 1000 limited_rule (tokenId buy_ctx) (conversationId buy_ctx)
            (accountId buy_ctx) (thresholdTracker (world (loop_start 1000 buy_ctx limited_engine))))"
    by blast
  from t px have "reason x = Some (''Threshold not met ('' @ template_num (threshold limited_rule) @ '' in ''
                        @ template_num (window limited_rule) @ ''s)'')"
    and c3: "stateCache (world (state_of (eval_rule lit_runtime 1000 buy_ctx limited_rule
                  (loop_start 1000 buy_ctx limited_engine))))
     = stateCache (world (loop_start 1000 buy_ctx limited_engine))"
    by blast+
  then have c2: "reason x = Some ''Threshold not met (3 in 10s)''"
    by (simp add: tn)
  from t ev my have "reason y = Some (''Threshold not met ('' @ template_num (threshold (rule y)) @ '' in ''
                           @ template_num (window (rule y)) @ ''s)'') \<and> state_res y = None"
    by (metis list.set_intros(1))
  with ry have c4: "reason y = Some ''Threshold not met (3 in 10s)'' \<and> state_res y = None"
    by (simp add: tn)
  from px c1 c2 c3 c4 ev my show ?thesis by blast
qed

text \<open>
  Claim C8 as stated fails in one direction: the rule
  \<open>{content: ['buy'], semantic: ['purchase immediately'], threshold: 3, window: 10}\<close>
  declares a semantic stage that does not pass on \<open>'buy now'\<close>, and \<^verbatim>\<open>evaluate\<close>
  returns a \<open>matched = false\<close> result for it.
\<close>

theorem gated_without_semantic:
  "semantic_declared (semanticMatcher limited_engine) limited_rule \<and>
   \<not> semantic_passes (semanticMatcher limited_engine) limited_rule (message buy_ctx) \<and>
   matched_flags (evaluate lit_runtime 1000 buy_ctx limited_engine) = Some [False] \<and>
   result_ids (evaluate lit_runtime 1000 buy_ctx limited_engine) = Some [''hyb-002'']"
  by (simp add: semantic_declared_def semantic_passes_def matched_flags_def result_ids_def
        scenario_defs engine_defs Let_def)

subsection \<open>Exceptions\<close>



lemma updateState_frame:
  "updateState now r ctx st w = (st', w') \<Longrightarrow>
     rules w' = rules w \<and> semanticMatcher w' = semanticMatcher w \<and>
     stateProvider w' = stateProvider w \<and> saved w' = saved w \<and>
     regexCache w' = regexCache w \<and> thresholdTracker w' = thresholdTracker w"
  by (auto simp: updateState_def Let_def split: option.splits prod.splits)










text \<open>How a compile error travels: out of \<^verbatim>\<open>rule.pcre.every(...)\<close>, out of the
  stages, out of the loop body and the loop, and out of \<^verbatim>\<open>evaluate\<close>.\<close>

lemma pcre_every_compile_error:
  "rc (p @ '':'' @ fl) = None \<Longrightarrow> RegExp_new rt p fl = None \<Longrightarrow>
     fst (pcre_every rt fl msg (p # ps) rc mp) = Inl (SyntaxError p)"
  by (simp add: RegexCache_get_def)







subsection \<open>The object store\<close>

lemma heap_extends_refl: "heap_extends h h"
  by (simp add: heap_extends_def)

lemma heap_extends_trans: "heap_extends h1 h2 \<Longrightarrow> heap_extends h2 h3 \<Longrightarrow> heap_extends h1 h3"
  by (auto simp: heap_extends_def)

lemma write_flags_props:
  "nextRef (write_flags fr hr v a rid now fs h) = nextRef h \<and>
   stateObjs (write_flags fr hr v a rid now fs h) = stateObjs h \<and>
   (\<forall>x. x \<noteq> fr \<longrightarrow> flagsObjs (write_flags fr hr v a rid now fs h) x = flagsObjs h x) \<and>
   (\<forall>x. x \<noteq> hr \<longrightarrow> historyArrs (write_flags fr hr v a rid now fs h) x = historyArrs h x) \<and>
   map_of (flagsObjs (write_flags fr hr v a rid now fs h) fr)
     = (\<lambda>flag. if flag \<in> set fs then Some v else map_of (flagsObjs h fr) flag) \<and>
   historyArrs (write_flags fr hr v a rid now fs h) hr
     = historyArrs h hr @
       map (\<lambda>flag. \<lparr>flag_h = flag, action_h = a, ruleId_h = rid, timestamp_h = now\<rparr>) fs"
proof (induction fs arbitrary: h)
  case Nil
  show ?case by simp
next
  case (Cons f fs)
  show ?case
    using Cons.IH [of "history_push hr \<lparr>flag_h = f, action_h = a, ruleId_h = rid, timestamp_h = now\<rparr>
          (flags_put fr f v h)"]
    by (auto simp: flags_put_def history_push_def update_conv' fun_eq_iff)
qed

lemma updateState_heap:
  assumes "flags r = Some f" and "updateState now r ctx st w = (st', w')"
  shows "st' = nextRef (heap w) + 2"
    and "nextRef (heap w') = nextRef (heap w) + 3"
    and "stateObjs (heap w') st' =
           (stateObjs (heap w) st)\<lparr>flags_state := nextRef (heap w),
              flagHistory_state := nextRef (heap w) + 1,
              expiresAt := now + or_num (ttl_fl f) 86400 * 1000, updatedAt := now\<rparr>"
    and "map_of (flagsObjs (heap w') (nextRef (heap w)))
           = flags_after f (map_of (flagsObjs (heap w) (flags_state (stateObjs (heap w) st))))"
    and "historyArrs (heap w') (nextRef (heap w) + 1)
           = historyArrs (heap w) (flagHistory_state (stateObjs (heap w) st)) @ history_entries now r f"
    and "heap_extends (heap w) (heap w')"
proof -
  define h where "h = heap w"
  define s where "s = stateObjs h st"
  define h1 where "h1 = snd (alloc_flags (flagsObjs h (flags_state s)) h)"
  define h2 where "h2 = snd (alloc_history (historyArrs h1 (flagHistory_state s)) h1)"
  define h3 where "h3 = write_flags (nextRef h) (nextRef h + 1) True SetAction (id_rule r) now (arr (set_fl f)) h2"
  define h4 where "h4 = write_flags (nextRef h) (nextRef h + 1) False UnsetAction (id_rule r) now (arr (unset_fl f)) h3"
  define ns where "ns = s\<lparr>flags_state := nextRef h, flagHistory_state := nextRef h + 1,
              expiresAt := now + or_num (ttl_fl f) 86400 * 1000, updatedAt := now\<rparr>"
  define h5 where "h5 = snd (alloc_state ns h4)"
  note p3 = write_flags_props [of "nextRef h" "nextRef h + 1" True SetAction "id_rule r" now "arr (set_fl f)" h2, folded h3_def]
  note p4 = write_flags_props [of "nextRef h" "nextRef h + 1" False UnsetAction "id_rule r" now "arr (unset_fl f)" h3, folded h4_def]
  have n2: "nextRef h2 = nextRef h + 2"
    by (simp add: h2_def h1_def alloc_flags_def alloc_history_def)
  from assms have st': "st' = nextRef h + 2" and hw: "heap w' = h5"
    using p3 p4 n2
    by (auto simp: updateState_def Let_def h_def s_def h1_def h2_def h3_def h4_def h5_def ns_def
          alloc_flags_def alloc_history_def alloc_state_def split: prod.splits)
  have f2: "flagsObjs h2 (nextRef h) = flagsObjs h (flags_state s)"
    and a2: "historyArrs h2 (nextRef h + 1) = historyArrs h (flagHistory_state s)"
    and o2: "\<forall>a < nextRef h. flagsObjs h2 a = flagsObjs h a \<and> historyArrs h2 a = historyArrs h a"
    and s2: "stateObjs h2 = stateObjs h"
    by (auto simp: h2_def h1_def alloc_flags_def alloc_history_def)
  show "st' = nextRef (heap w) + 2" using st' by (simp add: h_def)
  show "nextRef (heap w') = nextRef (heap w) + 3"
    using hw p3 p4 n2 by (simp add: h5_def alloc_state_def h_def)
  show "stateObjs (heap w') st' =
           (stateObjs (heap w) st)\<lparr>flags_state := nextRef (heap w),
              flagHistory_state := nextRef (heap w) + 1,
              expiresAt := now + or_num (ttl_fl f) 86400 * 1000, updatedAt := now\<rparr>"
    using hw st' p3 p4 n2 by (simp add: h5_def alloc_state_def ns_def s_def h_def)
  have "map_of (flagsObjs h5 (nextRef h)) = flags_after f (map_of (flagsObjs h (flags_state s)))"
    using p3 p4 f2 by (auto simp: h5_def alloc_state_def flags_after_def fun_eq_iff)
  then show "map_of (flagsObjs (heap w') (nextRef (heap w)))
           = flags_after f (map_of (flagsObjs (heap w) (flags_state (stateObjs (heap w) st))))"
    using hw by (simp add: h_def s_def)
  have "historyArrs h5 (nextRef h + 1) = historyArrs h (flagHistory_state s) @ history_entries now r f"
    using p3 p4 a2 by (simp add: h5_def alloc_state_def history_entries_def)
  then show "historyArrs (heap w') (nextRef (heap w) + 1)
           = historyArrs (heap w) (flagHistory_state (stateObjs (heap w) st)) @ history_entries now r f"
    using hw by (simp add: h_def s_def)
  have "heap_extends h h5"
    using p3 p4 o2 s2 n2 by (auto simp: heap_extends_def h5_def alloc_state_def)
  then show "heap_extends (heap w) (heap w')" using hw by (simp add: h_def)
qed

lemma updateState_extends: "updateState now r ctx st w = (st', w') \<Longrightarrow> heap_extends (heap w) (heap w')"
proof (cases "flags r")
  case None
  assume "updateState now r ctx st w = (st', w')"
  with None show ?thesis by (simp add: updateState_def heap_extends_refl)
next
  case (Some f)
  assume "updateState now r ctx st w = (st', w')"
  with Some show ?thesis by (rule updateState_heap(6))
qed

lemma eval_rule_extends:
  "heap_extends (heap (world ls)) (heap (world (state_of (eval_rule rt now ctx r ls))))"
  by (cases rule: eval_rule_cases [where rt=rt and now=now and ctx=ctx and r=r and ls=ls])
     (auto simp: heap_extends_refl dest: updateState_extends)

lemma eval_loop_extends:
  "eval_loop rt now ctx rs ls = (e, ls') \<Longrightarrow> heap_extends (heap (world ls)) (heap (world ls'))"
proof (induction rs arbitrary: ls)
  case Nil
  then show ?case by (simp add: heap_extends_refl)
next
  case (Cons r rs)
  note x = eval_rule_extends [where rt=rt and now=now and ctx=ctx and r=r and ls=ls]
  show ?case
  proof (cases "eval_rule rt now ctx r ls")
    case (Continue l1)
    with Cons.IH [of l1] Cons.prems x show ?thesis by (auto intro: heap_extends_trans)
  next
    case (Break l1)
    with Cons.prems x show ?thesis by auto
  next
    case (Throw e1 l1)
    with Cons.prems x show ?thesis by auto
  qed
qed

lemma hydrate_extends: "hydrate now ctx w = (x, w1) \<Longrightarrow> heap_extends (heap w) (heap w1)"
  by (auto simp: hydrate_def Let_def heap_extends_def alloc_flags_def alloc_history_def
        alloc_state_def split: option.splits prod.splits sum.splits)

lemma evaluate_extends: "heap_extends (heap w) (heap (snd (evaluate rt now ctx w)))"
proof -
  obtain x w1 where h: "hydrate now ctx w = (x, w1)" by (cases "hydrate now ctx w")
  note hx = hydrate_extends [OF h]
  show ?thesis
  proof (cases x)
    case (Inl e)
    with h hx show ?thesis by (simp add: evaluate_def)
  next
    case (Inr st)
    obtain eo ls where l: "eval_loop rt now ctx (preFilterRules (rules w1) (heap w1) st)
          \<lparr>results = [], state_cur = st, world = w1\<rparr> = (eo, ls)"
      by (cases "eval_loop rt now ctx (preFilterRules (rules w1) (heap w1) st)
          \<lparr>results = [], state_cur = st, world = w1\<rparr>")
    from eval_loop_extends [OF l] hx have "heap_extends (heap w) (heap (world ls))"
      by (auto intro: heap_extends_trans)
    with h Inr l show ?thesis
      by (auto simp: evaluate_def split: option.splits prod.splits)
  qed
qed

lemma allocated_extends:
  "allocated h st \<Longrightarrow> heap_extends h h' \<Longrightarrow>
     allocated h' st \<and> stateObjs h' st = stateObjs h st \<and>
     flagsObjs h' (flags_state (stateObjs h' st)) = flagsObjs h (flags_state (stateObjs h st)) \<and>
     historyArrs h' (flagHistory_state (stateObjs h' st))
       = historyArrs h (flagHistory_state (stateObjs h st))"
  by (auto simp: allocated_def heap_extends_def)

lemma updateState_allocated:
  assumes "updateState now r ctx st w = (st', w')" and "allocated (heap w) st"
  shows "allocated (heap w') st'"
proof (cases "flags r")
  case None
  with assms show ?thesis by (simp add: updateState_def)
next
  case (Some f)
  from updateState_heap(1-3) [OF Some assms(1)] show ?thesis
    by (simp add: allocated_def)
qed

lemmas stage_defs = stage1_rule_def stage2_rule_def two_stage_engine_def verify_ctx_def

subsection \<open>Copy on write\<close>

text \<open>
  Claim C9. The loop body writes into no object that existed before it ran. A firing
  rule with flags allocates a new flags object and a new history array, fills them from
  copies of the current state's flags and history, and allocates a new state object
  that refers to them; this new state is carried by the rule's result and is the
  \<^verbatim>\<open>state\<close> of the rules that follow. Whatever rules run later in the same call, the
  state object carried by an earlier result, its flags object and its history array keep
  their contents. \<^verbatim>\<open>evaluate\<close> as a whole writes into no object that existed before the
  call.
\<close>

theorem copy_on_write:
  "heap_extends (heap (world ls)) (heap (world (state_of (eval_rule rt now ctx r ls)))) \<and>
   (\<forall>x f. results (state_of (eval_rule rt now ctx r ls)) = results ls @ [x] \<and> matched x \<and>
          flags r = Some f \<longrightarrow>
      state_res x = Some (nextRef (heap (world ls)) + 2) \<and>
      state_cur (state_of (eval_rule rt now ctx r ls)) = nextRef (heap (world ls)) + 2 \<and>
      nextRef (heap (world (state_of (eval_rule rt now ctx r ls)))) = nextRef (heap (world ls)) + 3 \<and>
      flags_state (stateObjs (heap (world (state_of (eval_rule rt now ctx r ls))))
                     (nextRef (heap (world ls)) + 2)) = nextRef (heap (world ls)) \<and>
      flagHistory_state (stateObjs (heap (world (state_of (eval_rule rt now ctx r ls))))
                     (nextRef (heap (world ls)) + 2)) = nextRef (heap (world ls)) + 1 \<and>
      map_of (flagsObjs (heap (world (state_of (eval_rule rt now ctx r ls))))
                (nextRef (heap (world ls))))
        = flags_after f (map_of (flagsObjs (heap (world ls))
                                   (flags_state (stateObjs (heap (world ls)) (state_cur ls))))) \<and>
      historyArrs (heap (world (state_of (eval_rule rt now ctx r ls))))
                (nextRef (heap (world ls)) + 1)
        = historyArrs (heap (world ls))
            (flagHistory_state (stateObjs (heap (world ls)) (state_cur ls)))
          @ history_entries now r f) \<and>
   (\<forall>x s rs e ls'. results (state_of (eval_rule rt now ctx r ls)) = results ls @ [x] \<and>
          state_res x = Some s \<and> allocated (heap (world ls)) (state_cur ls) \<and>
          eval_loop rt now ctx rs (state_of (eval_rule rt now ctx r ls)) = (e, ls') \<longrightarrow>
      stateObjs (heap (world ls')) s
        = stateObjs (heap (world (state_of (eval_rule rt now ctx r ls)))) s \<and>
      flagsObjs (heap (world ls')) (flags_state (stateObjs (heap (world ls')) s))
        = flagsObjs (heap (world (state_of (eval_rule rt now ctx r ls))))
            (flags_state (stateObjs (heap (world (state_of (eval_rule rt now ctx r ls)))) s)) \<and>
      historyArrs (heap (world ls')) (flagHistory_state (stateObjs (heap (world ls')) s))
        = historyArrs (heap (world (state_of (eval_rule rt now ctx r ls))))
            (flagHistory_state (stateObjs (heap (world (state_of (eval_rule rt now ctx r ls)))) s))) \<and>
   heap_extends (heap w) (heap (snd (evaluate rt now ctx w)))"
proof -
  let ?ls1 = "state_of (eval_rule rt now ctx r ls)"
  let ?h = "heap (world ls)"
  let ?h1 = "heap (world ?ls1)"
  have A: "heap_extends ?h ?h1" by (rule eval_rule_extends)
  have B: "state_res x = Some (nextRef ?h + 2) \<and> state_cur ?ls1 = nextRef ?h + 2 \<and>
      nextRef ?h1 = nextRef ?h + 3 \<and>
      flags_state (stateObjs ?h1 (nextRef ?h + 2)) = nextRef ?h \<and>
      flagHistory_state (stateObjs ?h1 (nextRef ?h + 2)) = nextRef ?h + 1 \<and>
      map_of (flagsObjs ?h1 (nextRef ?h))
        = flags_after f (map_of (flagsObjs ?h (flags_state (stateObjs ?h (state_cur ls))))) \<and>
      historyArrs ?h1 (nextRef ?h + 1)
        = historyArrs ?h (flagHistory_state (stateObjs ?h (state_cur ls))) @ history_entries now r f"
    if p: "results ?ls1 = results ls @ [x]" and m: "matched x" and f: "flags r = Some f" for x f
    using p
  proof (cases rule: eval_rule_push [where rt=rt and now=now and ctx=ctx and r=r and ls=ls and x=x])
    case (gated l rc' tr')
    with m show ?thesis by (simp add: nonmatch_result_def)
  next
    case (fired l rc' tr' st' w2)
    from updateState_heap [OF f fired(3)] fired(4,5) show ?thesis
      by (simp add: match_result_def)
  qed
  have C: "stateObjs (heap (world ls')) s = stateObjs ?h1 s \<and>
      flagsObjs (heap (world ls')) (flags_state (stateObjs (heap (world ls')) s))
        = flagsObjs ?h1 (flags_state (stateObjs ?h1 s)) \<and>
      historyArrs (heap (world ls')) (flagHistory_state (stateObjs (heap (world ls')) s))
        = historyArrs ?h1 (flagHistory_state (stateObjs ?h1 s))"
    if p: "results ?ls1 = results ls @ [x]" and s: "state_res x = Some s"
      and al: "allocated ?h (state_cur ls)" and lp: "eval_loop rt now ctx rs ?ls1 = (e, ls')"
    for x s rs e ls'
  proof -
    have "allocated ?h1 s"
      using p
    proof (cases rule: eval_rule_push [where rt=rt and now=now and ctx=ctx and r=r and ls=ls and x=x])
      case (gated l rc' tr')
      with s show ?thesis by (simp add: nonmatch_result_def)
    next
      case (fired l rc' tr' st' w2)
      from updateState_allocated [OF fired(3)] al fired(4,5) s show ?thesis
        by (simp add: match_result_def)
    qed
    from allocated_extends [OF this eval_loop_extends [OF lp]] show ?thesis by auto
  qed
  have D: "heap_extends (heap w) (heap (snd (evaluate rt now ctx w)))"
    by (rule evaluate_extends)
  from A B C D show ?thesis by blast
qed

theorem copy_on_write_witness:
  "allocated (heap (world (loop_start 1000 verify_ctx two_stage_engine)))
     (state_cur (loop_start 1000 verify_ctx two_stage_engine)) \<and>
   flags stage1_rule = Some (no_flags\<lparr>set_fl := Some [''s1'']\<rparr>) \<and>
   (\<exists>x. results after_stage1 = results (loop_start 1000 verify_ctx two_stage_engine) @ [x] \<and>
        matched x \<and> state_res x = Some 5) \<and>
   eval_loop lit_runtime 1000 verify_ctx [stage2_rule] after_stage1 = (None, after_stage2) \<and>
   state_cur after_stage2 = 8 \<and>
   state_flag (heap (world after_stage2)) 8 ''s2'' = Some True \<and>
   state_flag (heap (world after_stage2)) 5 ''s1'' = Some True \<and>
   state_flag (heap (world after_stage2)) 5 ''s2'' = None"
proof -
  let ?L0 = "loop_start 1000 verify_ctx two_stage_engine"
  have l0: "results ?L0 = []" "state_cur ?L0 = 2" "nextRef (heap (world ?L0)) = 3"
    "flagsObjs (heap (world ?L0)) (flags_state (stateObjs (heap (world ?L0)) 2)) = []"
    by (simp_all add: stage_defs scenario_defs engine_defs Let_def)
  have al: "allocated (heap (world ?L0)) (state_cur ?L0)"
    by (simp add: allocated_def stage_defs scenario_defs engine_defs Let_def)
  have fl: "flags stage1_rule = Some (no_flags\<lparr>set_fl := Some [''s1'']\<rparr>)"
    by (simp add: stage1_rule_def plain_rule_def)
  have "\<exists>x. results after_stage1 = [x] \<and> matched x"
    by (simp add: after_stage1_def stage_defs scenario_defs engine_defs Let_def)
  then obtain x where px: "results after_stage1 = results ?L0 @ [x]" and mx: "matched x"
    using l0(1) by auto
  have lp: "eval_loop lit_runtime 1000 verify_ctx [stage2_rule] after_stage1 = (None, after_stage2)"
    and c2: "state_cur after_stage2 = 8"
    and f2: "state_flag (heap (world after_stage2)) 8 ''s2'' = Some True"
    by (simp_all add: after_stage2_def after_stage1_def state_flag_def stage_defs scenario_defs
          engine_defs Let_def)
  note t = copy_on_write [where rt = lit_runtime and now = 1000 and ctx = verify_ctx
      and r = stage1_rule and ls = ?L0, folded after_stage1_def]
  from t px mx fl have b: "state_res x = Some (nextRef (heap (world ?L0)) + 2) \<and>
      flags_state (stateObjs (heap (world after_stage1)) (nextRef (heap (world ?L0)) + 2))
        = nextRef (heap (world ?L0)) \<and>
      map_of (flagsObjs (heap (world after_stage1)) (nextRef (heap (world ?L0))))
        = flags_after (no_flags\<lparr>set_fl := Some [''s1'']\<rparr>)
            (map_of (flagsObjs (heap (world ?L0))
               (flags_state (stateObjs (heap (world ?L0)) (state_cur ?L0)))))"
    by blast
  then have sx: "state_res x = Some 5"
    and fs: "flags_state (stateObjs (heap (world after_stage1)) 5) = 3"
    and fm: "map_of (flagsObjs (heap (world after_stage1)) 3)
               = flags_after (no_flags\<lparr>set_fl := Some [''s1'']\<rparr>) Map.empty"
    by (simp_all add: l0)
  from t px sx al lp
  have "stateObjs (heap (world after_stage2)) 5 = stateObjs (heap (world after_stage1)) 5 \<and>
      flagsObjs (heap (world after_stage2)) (flags_state (stateObjs (heap (world after_stage2)) 5))
        = flagsObjs (heap (world after_stage1))
            (flags_state (stateObjs (heap (world after_stage1)) 5))"
    by blast
  with fs fm have "state_flag (heap (world after_stage2)) 5
                     = flags_after (no_flags\<lparr>set_fl := Some [''s1'']\<rparr>) Map.empty"
    by (auto simp: state_flag_def fun_eq_iff)
  then have k: "state_flag (heap (world after_stage2)) 5 ''s1'' = Some True"
    "state_flag (heap (world after_stage2)) 5 ''s2'' = None"
    by (simp_all add: flags_after_def no_flags_def arr_def)
  from al fl px mx sx lp c2 f2 k show ?thesis by blast
qed

subsection \<open>Write-through to the state cache\<close>

lemmas call_defs = setter_rule_def checker_rule_def checker_engine_def first_call_def
  second_ctx_def second_call_def third_ctx_def


lemma eval_loop_invariant:
  assumes step: "\<And>r ls. I ls \<Longrightarrow> I (state_of (eval_rule rt now ctx r ls))"
  shows "eval_loop rt now ctx rs ls = (e, ls') \<Longrightarrow> I ls \<Longrightarrow> I ls'"
proof (induction rs arbitrary: ls)
  case Nil
  then show ?case by simp
next
  case (Cons r rs)
  from step [OF Cons.prems(2), of r] have i: "I (state_of (eval_rule rt now ctx r ls))" .
  show ?case
  proof (cases "eval_rule rt now ctx r ls")
    case (Continue l1)
    with Cons.IH [of l1] Cons.prems(1) i show ?thesis by simp
  next
    case (Break l1)
    with Cons.prems(1) i show ?thesis by auto
  next
    case (Throw e1 l1)
    with Cons.prems(1) i show ?thesis by auto
  qed
qed

lemma StateCache_set_entry:
  "cache_entry (StateCache_set now tok conv st acct sc) tok conv acct
     = Some \<lparr>state_ce = st, lastAccess = now, dirty = False\<rparr>"
  by (simp add: cache_entry_def StateCache_set_def Let_def update_conv')

lemma markDirty_entry:
  assumes "cache_entry sc tok conv acct = Some c"
  shows "cache_entry (markDirty tok conv acct sc) tok conv acct = Some (c\<lparr>dirty := True\<rparr>) \<and>
         getKey tok conv acct \<in> set (writeQueue (markDirty tok conv acct sc)) \<and>
         writeBatchTimer (markDirty tok conv acct sc)"
  using assms
  by (auto simp: cache_entry_def markDirty_def scheduleBatchWrite_def Let_def update_conv')

lemma updateState_cache:
  assumes "flags r = Some f" and "updateState now r ctx st w = (st', w')"
  shows "cache_entry (stateCache w') (tokenId ctx) (conversationId ctx) (accountId ctx)
           = Some \<lparr>state_ce = st', lastAccess = now, dirty = True\<rparr> \<and>
         getKey (tokenId ctx) (conversationId ctx) (accountId ctx) \<in> set (writeQueue (stateCache w')) \<and>
         writeBatchTimer (stateCache w')"
  using assms
    markDirty_entry [OF StateCache_set_entry [of now "tokenId ctx" "conversationId ctx" st' "accountId ctx" "stateCache w"]]
  by (auto simp: updateState_def Let_def split: prod.splits)

lemma last_state_snoc:
  "last_state (rs @ [x]) = (if matched x then state_res x else last_state rs)"
  by (simp add: last_state_def)

lemma wrote_flags_snoc:
  "wrote_flags (rs @ [x]) = (wrote_flags rs \<or> (matched x \<and> flags (rule x) \<noteq> None))"
  by (auto simp: wrote_flags_def)

lemma eval_rule_written:
  assumes "written now ctx ls"
  shows "written now ctx (state_of (eval_rule rt now ctx r ls))"
proof (cases rule: eval_rule_cases [where rt=rt and now=now and ctx=ctx and r=r and ls=ls])
  case (throw e rc')
  with assms show ?thesis by (simp add: written_def)
next
  case (skip rc')
  with assms show ?thesis by (simp add: written_def)
next
  case (gated l rc' tr')
  with assms show ?thesis
    by (simp add: written_def wrote_flags_snoc last_state_snoc nonmatch_result_def)
next
  case (fired l rc' tr' st' w2)
  show ?thesis
  proof (cases "flags r")
    case None
    with fired assms show ?thesis
      by (auto simp: written_def wrote_flags_snoc last_state_snoc match_result_def updateState_def)
  next
    case (Some f)
    from updateState_cache [OF Some fired(3)] fired(4) Some show ?thesis
      by (auto simp: written_def wrote_flags_snoc last_state_snoc match_result_def)
  qed
qed

lemma wrote_flags_matched: "wrote_flags res \<Longrightarrow> filter matched res \<noteq> []"
  by (auto simp: wrote_flags_def list_ex_iff filter_empty_conv)

lemma hydrate_cached:
  assumes "cache_entry (stateCache w) (tokenId ctx) (conversationId ctx) (accountId ctx)
             = Some \<lparr>state_ce = st, lastAccess = t, dirty = d\<rparr>"
    and "now' - t < ttl_cache (stateCache w)"
  shows "fst (hydrate now' (ctx\<lparr>state_ctx := None\<rparr>) w) = Inr st \<and>
         heap (snd (hydrate now' (ctx\<lparr>state_ctx := None\<rparr>) w)) = heap w"
  using assms
  by (simp add: hydrate_def StateCache_get_def cache_entry_def Let_def)

text \<open>
  Claim C10. When \<^verbatim>\<open>ctx.state\<close> is supplied, \<^verbatim>\<open>evaluate\<close> takes it without looking
  into the cache or asking the provider. If the call returns and a rule with flags
  fired, then after the call the cache entry of the tuple holds the state carried by the
  last \<open>matched = true\<close> result, written at the time of the call and marked dirty, and
  the tuple's key is in the write queue with a flush scheduled. A later call for the
  same tuple without \<^verbatim>\<open>ctx.state\<close>, less than the cache TTL after the first, loads
  exactly that state object, with the flags the firing rules left in it.
\<close>

theorem state_written_through:
  assumes "evaluate rt now ctx w = (Inr res, w')" and "wrote_flags res"
  shows "(\<forall>s0. state_ctx ctx = Some s0 \<longrightarrow> hydrate now ctx w = (Inr s0, w)) \<and>
         (\<exists>st. last_state res = Some st \<and>
            cache_entry (stateCache w') (tokenId ctx) (conversationId ctx) (accountId ctx)
              = Some \<lparr>state_ce = st, lastAccess = now, dirty = True\<rparr> \<and>
            getKey (tokenId ctx) (conversationId ctx) (accountId ctx)
              \<in> set (writeQueue (stateCache w')) \<and>
            writeBatchTimer (stateCache w') \<and>
            (\<forall>now'. now' - now < ttl_cache (stateCache w') \<longrightarrow>
               fst (hydrate now' (ctx\<lparr>state_ctx := None\<rparr>) w') = Inr st \<and>
               heap (snd (hydrate now' (ctx\<lparr>state_ctx := None\<rparr>) w')) = heap w'))"
proof -
  have H: "hydrate now ctx w = (Inr s0, w)" if "state_ctx ctx = Some s0" for s0
    using that by (simp add: hydrate_def)
  from assms(1) have ev: "fst (evaluate rt now ctx w) = Inr res" by simp
  from ev obtain st0 w1 ls where
    hy: "hydrate now ctx w = (Inr st0, w1)"
    and loop: "eval_loop rt now ctx (preFilterRules (rules w1) (heap w1) st0)
       \<lparr>results = [], state_cur = st0, world = w1\<rparr> = (None, ls)"
    and res: "results ls = res"
    by (rule evaluate_results)
  have w0: "written now ctx \<lparr>results = [], state_cur = st0, world = w1\<rparr>"
    by (simp add: written_def wrote_flags_def)
  have wr: "written now ctx ls"
  proof (rule eval_loop_invariant [where I = "written now ctx", OF _ loop])
    show "written now ctx (state_of (eval_rule rt now ctx r l))" if "written now ctx l" for r l
      using that by (rule eval_rule_written)
    show "written now ctx \<lparr>results = [], state_cur = st0, world = w1\<rparr>"
      by (rule w0)
  qed
  from assms(1) hy loop have sc: "stateCache w' = stateCache (world ls)"
    by (auto simp: evaluate_def split: option.splits prod.splits)
  from wr res assms(2) wrote_flags_matched [OF assms(2)] sc
  have E: "last_state res = Some (state_cur ls) \<and>
       cache_entry (stateCache w') (tokenId ctx) (conversationId ctx) (accountId ctx)
              = Some \<lparr>state_ce = state_cur ls, lastAccess = now, dirty = True\<rparr> \<and>
            getKey (tokenId ctx) (conversationId ctx) (accountId ctx)
              \<in> set (writeQueue (stateCache w')) \<and>
            writeBatchTimer (stateCache w')"
    by (simp add: written_def)
  then have G: "fst (hydrate now' (ctx\<lparr>state_ctx := None\<rparr>) w') = Inr (state_cur ls) \<and>
               heap (snd (hydrate now' (ctx\<lparr>state_ctx := None\<rparr>) w')) = heap w'"
    if "now' - now < ttl_cache (stateCache w')" for now'
    using that hydrate_cached [of w' ctx "state_cur ls" now True now'] by blast
  from H E G show ?thesis by blast
qed

theorem state_written_through_witness:
  "state_ctx second_ctx = Some 5 \<and>
   second_call = (Inr (projr (fst second_call)), snd second_call) \<and>
   wrote_flags (projr (fst second_call)) \<and>
   last_state (projr (fst second_call)) = Some 8 \<and>
   cache_entry (stateCache (snd second_call)) ''user1'' ''conv1'' None
     = Some \<lparr>state_ce = 8, lastAccess = 2000, dirty = True\<rparr> \<and>
   fst (hydrate 3000 third_ctx (snd second_call)) = Inr 8 \<and>
   state_flag (heap (snd second_call)) 8 ''confirmed'' = Some True \<and>
   result_ids (evaluate lit_runtime 3000 third_ctx (snd second_call)) = Some [''stage-2-checker'']"
proof -
  have sc: "state_ctx second_ctx = Some 5"
    and tc: "third_ctx = second_ctx\<lparr>state_ctx := None\<rparr>"
    and tk: "tokenId second_ctx = ''user1''" "conversationId second_ctx = ''conv1''"
            "accountId second_ctx = None"
    by (simp_all add: second_ctx_def third_ctx_def ctx_of_def)
  have "\<exists>x. fst second_call = Inr [x] \<and> matched x \<and> flags (rule x) \<noteq> None \<and> state_res x = Some 8"
    by (simp add: call_defs scenario_defs engine_defs Let_def)
  then obtain x where fx: "fst second_call = Inr [x]" and mx: "matched x"
    and rx: "flags (rule x) \<noteq> None" and sx: "state_res x = Some 8"
    by blast
  from fx have ev: "evaluate lit_runtime 2000 second_ctx (snd first_call) = (Inr [x], snd second_call)"
    by (simp add: second_call_def prod_eq_iff)
  from mx rx have wf: "wrote_flags [x]"
    by (simp add: wrote_flags_def)
  from mx sx have ls: "last_state [x] = Some 8"
    by (simp add: last_state_def)
  have ttl: "ttl_cache (stateCache (snd second_call)) = 300000"
    and fl: "state_flag (heap (snd second_call)) 8 ''confirmed'' = Some True"
    and r3: "result_ids (evaluate lit_runtime 3000 third_ctx (snd second_call))
               = Some [''stage-2-checker'']"
    by (simp_all add: result_ids_def call_defs scenario_defs engine_defs Let_def)
  from state_written_through [OF ev wf] ls
  have ce: "cache_entry (stateCache (snd second_call)) (tokenId second_ctx)
              (conversationId second_ctx) (accountId second_ctx)
              = Some \<lparr>state_ce = 8, lastAccess = 2000, dirty = True\<rparr>"
    and hy: "\<forall>now'. now' - 2000 < ttl_cache (stateCache (snd second_call)) \<longrightarrow>
               fst (hydrate now' (second_ctx\<lparr>state_ctx := None\<rparr>) (snd second_call)) = Inr 8"
    by auto
  from hy ttl tc have h3: "fst (hydrate 3000 third_ctx (snd second_call)) = Inr 8"
    by simp
  from fx have sq: "second_call = (Inr (projr (fst second_call)), snd second_call)"
    by (simp add: prod_eq_iff)
  from sc sq fx wf ls ce tk h3 fl r3 show ?thesis by simp
qed

subsection \<open>Isolation between tuples\<close>

lemma split_at_colon:
  "CHR '':'' \<notin> set xs \<Longrightarrow> CHR '':'' \<notin> set xs' \<Longrightarrow>
     xs @ CHR '':'' # ys = xs' @ CHR '':'' # ys' \<Longrightarrow> xs = xs' \<and> ys = ys'"
proof (induction xs arbitrary: xs')
  case Nil
  then show ?case by (cases xs') auto
next
  case (Cons x xs)
  then show ?case by (cases xs') auto
qed

lemma getKey_inj:
  assumes "CHR '':'' \<notin> set tok" "CHR '':'' \<notin> set conv" "CHR '':'' \<notin> set tok'" "CHR '':'' \<notin> set conv'"
    and "getKey tok conv acct = getKey tok' conv' acct'"
  shows "tok = tok' \<and> conv = conv' \<and> or_empty acct = or_empty acct'"
proof -
  from assms(5) have e: "tok @ CHR '':'' # (conv @ CHR '':'' # or_empty acct)
                       = tok' @ CHR '':'' # (conv' @ CHR '':'' # or_empty acct')"
    by (simp add: getKey_def)
  from split_at_colon [OF assms(1) assms(3) e]
  have t: "tok = tok'" and r: "conv @ CHR '':'' # or_empty acct = conv' @ CHR '':'' # or_empty acct'"
    by simp_all
  from split_at_colon [OF assms(2) assms(4) r] t show ?thesis by simp
qed

lemma check_other_key:
  "key \<noteq> getKey tok conv acct \<Longrightarrow>
     snd (ThresholdTracker_check now r tok conv acct tr) key = tr key"
  by (auto simp: ThresholdTracker_check_def Let_def split: option.splits)

lemma check_same:
  "tr1 (getKey tok conv acct) = tr2 (getKey tok conv acct) \<Longrightarrow>
     fst (ThresholdTracker_check now r tok conv acct tr1)
       = fst (ThresholdTracker_check now r tok conv acct tr2) \<and>
     snd (ThresholdTracker_check now r tok conv acct tr1) (getKey tok conv acct)
       = snd (ThresholdTracker_check now r tok conv acct tr2) (getKey tok conv acct)"
  by (auto simp: ThresholdTracker_check_def Let_def split: option.splits)

lemma length_update:
  "length (AList.update k v al) = (if k \<in> fst ` set al then length al else Suc (length al))"
  by (induction al) auto

lemma set_other_key:
  assumes "key \<noteq> getKey tok conv acct" and "has_room sc (getKey tok conv acct)"
  shows "map_of (cache (StateCache_set now tok conv st acct sc)) key = map_of (cache sc) key \<and>
         has_room (StateCache_set now tok conv st acct sc) (getKey tok conv acct)"
proof -
  from assms(2) have "\<not> maxSize sc \<le> length (cache sc)"
    by (simp add: has_room_def split: if_splits)
  then have "StateCache_set now tok conv st acct sc
           = sc\<lparr>cache := AList.update (getKey tok conv acct)
                   \<lparr>state_ce = st, lastAccess = now, dirty = False\<rparr> (cache sc)\<rparr>"
    by (simp add: StateCache_set_def Let_def)
  with assms show ?thesis
    by (simp add: has_room_def length_update dom_update update_conv' split: if_splits)
qed

lemma markDirty_other_key:
  assumes "key \<noteq> getKey tok conv acct"
  shows "map_of (cache (markDirty tok conv acct sc)) key = map_of (cache sc) key \<and>
         (has_room sc (getKey tok conv acct) \<longrightarrow>
            has_room (markDirty tok conv acct sc) (getKey tok conv acct))"
proof (cases "map_of (cache sc) (getKey tok conv acct)")
  case None
  then show ?thesis by (simp add: markDirty_def)
next
  case (Some c)
  then have "cache (markDirty tok conv acct sc)
               = AList.update (getKey tok conv acct) (c\<lparr>dirty := True\<rparr>) (cache sc)"
    and "maxSize (markDirty tok conv acct sc) = maxSize sc"
    by (simp_all add: markDirty_def scheduleBatchWrite_def Let_def)
  with assms show ?thesis
    by (simp add: has_room_def length_update dom_update update_conv' split: if_splits)
qed

lemma get_other_key:
  assumes "key \<noteq> getKey tok conv acct"
  shows "map_of (cache (snd (StateCache_get now tok conv acct sc))) key = map_of (cache sc) key \<and>
         (has_room sc (getKey tok conv acct) \<longrightarrow>
            has_room (snd (StateCache_get now tok conv acct sc)) (getKey tok conv acct))"
proof (cases "map_of (cache sc) (getKey tok conv acct)")
  case None
  then show ?thesis by (simp add: StateCache_get_def)
next
  case (Some c)
  show ?thesis
  proof (cases "now - lastAccess c < ttl_cache sc")
    case True
    with Some have "snd (StateCache_get now tok conv acct sc)
               = sc\<lparr>cache := AList.update (getKey tok conv acct) (c\<lparr>lastAccess := now\<rparr>) (cache sc)\<rparr>"
      by (simp add: StateCache_get_def Let_def)
    with assms show ?thesis
      by (simp add: has_room_def length_update dom_update update_conv' split: if_splits)
  next
    case False
    with Some show ?thesis by (simp add: StateCache_get_def Let_def)
  qed
qed

lemma updateState_untouched:
  assumes "other \<noteq> getKey (tokenId ctx) (conversationId ctx) (accountId ctx)"
    and "untouched (getKey (tokenId ctx) (conversationId ctx) (accountId ctx)) other w0 w"
    and "updateState now r ctx st w = (st', w')"
  shows "untouched (getKey (tokenId ctx) (conversationId ctx) (accountId ctx)) other w0 w'"
proof (cases "flags r")
  case None
  with assms show ?thesis by (simp add: updateState_def)
next
  case (Some f)
  let ?sc1 = "StateCache_set now (tokenId ctx) (conversationId ctx) st' (accountId ctx) (stateCache w)"
  from Some assms(3) have sc: "stateCache w' = markDirty (tokenId ctx) (conversationId ctx) (accountId ctx) ?sc1"
    and tr: "thresholdTracker w' = thresholdTracker w"
    by (auto simp: updateState_def Let_def split: prod.splits)
  note s = set_other_key [OF assms(1), of "stateCache w" now st']
  note m = markDirty_other_key [OF assms(1), of ?sc1]
  from assms(2) sc tr s m show ?thesis
    by (simp add: untouched_def)
qed

lemma eval_rule_untouched:
  assumes "other \<noteq> getKey (tokenId ctx) (conversationId ctx) (accountId ctx)"
    and "untouched (getKey (tokenId ctx) (conversationId ctx) (accountId ctx)) other w0 (world ls)"
  shows "untouched (getKey (tokenId ctx) (conversationId ctx) (accountId ctx)) other w0
           (world (state_of (eval_rule rt now ctx r ls)))"
proof (cases rule: eval_rule_cases [where rt=rt and now=now and ctx=ctx and r=r and ls=ls])
  case (throw e rc')
  with assms(2) show ?thesis by (simp add: untouched_def)
next
  case (skip rc')
  with assms(2) show ?thesis by (simp add: untouched_def)
next
  case (gated l rc' tr')
  from check_other_key [OF assms(1), of now r "thresholdTracker (world ls)"] gated(2)
  have "tr' other = thresholdTracker (world ls) other" by simp
  with gated(3) assms(2) show ?thesis by (simp add: untouched_def)
next
  case (fired l rc' tr' st' w2)
  from check_other_key [OF assms(1), of now r "thresholdTracker (world ls)"] fired(2)
  have "tr' other = thresholdTracker (world ls) other" by simp
  with assms(2)
  have "untouched (getKey (tokenId ctx) (conversationId ctx) (accountId ctx)) other w0
          ((world ls)\<lparr>regexCache := rc', thresholdTracker := tr'\<rparr>)"
    by (simp add: untouched_def)
  from updateState_untouched [OF assms(1) this fired(3)] fired(4) show ?thesis
    by (simp split: if_splits)
qed

lemma hydrate_untouched:
  assumes "other \<noteq> getKey (tokenId ctx) (conversationId ctx) (accountId ctx)"
  shows "untouched (getKey (tokenId ctx) (conversationId ctx) (accountId ctx)) other w
           (snd (hydrate now ctx w))"
proof -
  let ?g = "StateCache_get now (tokenId ctx) (conversationId ctx) (accountId ctx) (stateCache w)"
  note g = get_other_key [OF assms, of now "stateCache w"]
  note s = set_other_key [OF assms, of "snd ?g" now]
  from g s show ?thesis
    by (auto simp: hydrate_def untouched_def Let_def alloc_flags_def alloc_history_def
          alloc_state_def split: option.splits prod.splits sum.splits)
qed

lemma evaluate_untouched:
  assumes "other \<noteq> getKey (tokenId ctx) (conversationId ctx) (accountId ctx)"
  shows "untouched (getKey (tokenId ctx) (conversationId ctx) (accountId ctx)) other w
           (snd (evaluate rt now ctx w))"
proof -
  let ?key = "getKey (tokenId ctx) (conversationId ctx) (accountId ctx)"
  obtain x w1 where h: "hydrate now ctx w = (x, w1)" by (cases "hydrate now ctx w")
  from hydrate_untouched [OF assms, of w now] h have u1: "untouched ?key other w w1" by simp
  show ?thesis
  proof (cases x)
    case (Inl e)
    with h u1 show ?thesis by (simp add: evaluate_def)
  next
    case (Inr st)
    obtain eo ls where l: "eval_loop rt now ctx (preFilterRules (rules w1) (heap w1) st)
          \<lparr>results = [], state_cur = st, world = w1\<rparr> = (eo, ls)"
      by (cases "eval_loop rt now ctx (preFilterRules (rules w1) (heap w1) st)
          \<lparr>results = [], state_cur = st, world = w1\<rparr>")
    have u2: "untouched ?key other w (world ls)"
    proof (rule eval_loop_invariant [where I = "\<lambda>l. untouched ?key other w (world l)", OF _ l])
      show "untouched ?key other w (world (state_of (eval_rule rt now ctx r l)))"
        if "untouched ?key other w (world l)" for r l
        using assms that by (rule eval_rule_untouched)
      show "untouched ?key other w (world \<lparr>results = [], state_cur = st, world = w1\<rparr>)"
        using u1 by simp
    qed
    have "untouched ?key other w ((world ls)\<lparr>saved := sv\<rparr>)" for sv
      using u2 by (simp add: untouched_def)
    with h Inr l u2 show ?thesis
      by (auto simp: evaluate_def split: option.splits prod.splits)
  qed
qed

lemma updateState_same:
  assumes "same_for (getKey (tokenId ctx) (conversationId ctx) (accountId ctx)) w1 w2"
  shows "fst (updateState now r ctx st w1) = fst (updateState now r ctx st w2) \<and>
         same_for (getKey (tokenId ctx) (conversationId ctx) (accountId ctx))
           (snd (updateState now r ctx st w1)) (snd (updateState now r ctx st w2))"
proof (cases "flags r")
  case None
  with assms show ?thesis by (simp add: updateState_def)
next
  case (Some f)
  obtain a1 v1 where u1: "updateState now r ctx st w1 = (a1, v1)" by (cases "updateState now r ctx st w1")
  obtain a2 v2 where u2: "updateState now r ctx st w2 = (a2, v2)" by (cases "updateState now r ctx st w2")
  from assms have hp: "heap w1 = heap w2" by (simp add: same_for_def)
  from updateState_heap(1) [OF Some u1] updateState_heap(1) [OF Some u2] hp
  have a: "a1 = a2" by simp
  from Some u1 u2 hp have hh: "heap v1 = heap v2"
    by (auto simp: updateState_def Let_def split: prod.splits)
  from Some u1 u2 assms have rest: "rules v1 = rules v2 \<and> semanticMatcher v1 = semanticMatcher v2 \<and>
      stateProvider v1 = stateProvider v2 \<and> regexCache v1 = regexCache v2 \<and>
      thresholdTracker v1 = thresholdTracker w1 \<and> thresholdTracker v2 = thresholdTracker w2"
    using updateState_frame [OF u1] updateState_frame [OF u2] by (simp add: same_for_def)
  from Some u1 u2 assms have ttl: "ttl_cache (stateCache v1) = ttl_cache (stateCache v2)"
    by (auto simp: updateState_def Let_def same_for_def StateCache_set_def markDirty_def
          scheduleBatchWrite_def split: prod.splits option.splits)
  from updateState_cache [OF Some u1] updateState_cache [OF Some u2] a
  have ce: "map_of (cache (stateCache v1)) (getKey (tokenId ctx) (conversationId ctx) (accountId ctx))
          = map_of (cache (stateCache v2)) (getKey (tokenId ctx) (conversationId ctx) (accountId ctx))"
    by (simp add: cache_entry_def)
  from a hh rest ttl ce assms u1 u2 show ?thesis
    by (simp add: same_for_def)
qed

lemma eval_rule_same:
  assumes "same_loop (getKey (tokenId ctx) (conversationId ctx) (accountId ctx)) l1 l2"
  shows "tag_of (eval_rule rt now ctx r l1) = tag_of (eval_rule rt now ctx r l2) \<and>
         same_loop (getKey (tokenId ctx) (conversationId ctx) (accountId ctx))
           (state_of (eval_rule rt now ctx r l1)) (state_of (eval_rule rt now ctx r l2))"
proof -
  let ?key = "getKey (tokenId ctx) (conversationId ctx) (accountId ctx)"
  from assms have sf: "same_for ?key (world l1) (world l2)"
    and rs: "results l1 = results l2" and sc: "state_cur l1 = state_cur l2"
    by (simp_all add: same_loop_def)
  from sf have run: "run_stages rt (semanticMatcher (world l1)) r (message ctx) (regexCache (world l1))
      = run_stages rt (semanticMatcher (world l2)) r (message ctx) (regexCache (world l2))"
    by (simp add: same_for_def)
  from sf have tk: "thresholdTracker (world l1) ?key = thresholdTracker (world l2) ?key"
    by (simp add: same_for_def)
  note chk = check_same [where ?tr1.0 = "thresholdTracker (world l1)"
      and ?tr2.0 = "thresholdTracker (world l2)" and tok = "tokenId ctx"
      and conv = "conversationId ctx" and acct = "accountId ctx" and now = now and r = r, OF tk]
  show ?thesis
  proof (cases rule: eval_rule_cases [where rt=rt and now=now and ctx=ctx and r=r and ls=l1])
    case (throw e rc')
    from run throw(1)
    have "run_stages rt (semanticMatcher (world l2)) r (message ctx) (regexCache (world l2))
            = (Inl e, rc')" by simp
    then have "eval_rule rt now ctx r l2 = Throw e (l2\<lparr>world := (world l2)\<lparr>regexCache := rc'\<rparr>\<rparr>)"
      by (simp add: eval_rule_def)
    with throw assms show ?thesis by (simp add: same_loop_def same_for_def)
  next
    case (skip rc')
    from run skip(1)
    have "run_stages rt (semanticMatcher (world l2)) r (message ctx) (regexCache (world l2))
            = (Inr None, rc')" by simp
    then have "eval_rule rt now ctx r l2 = Continue (l2\<lparr>world := (world l2)\<lparr>regexCache := rc'\<rparr>\<rparr>)"
      by (simp add: eval_rule_def)
    with skip assms show ?thesis by (simp add: same_loop_def same_for_def)
  next
    case (gated l rc' tr')
    obtain tr2 where c2: "ThresholdTracker_check now r (tokenId ctx) (conversationId ctx) (accountId ctx)
         (thresholdTracker (world l2)) = (False, tr2)" and t2: "tr' ?key = tr2 ?key"
      using chk gated(2)
      by (cases "ThresholdTracker_check now r (tokenId ctx) (conversationId ctx) (accountId ctx)
         (thresholdTracker (world l2))") auto
    from run gated(1)
    have "run_stages rt (semanticMatcher (world l2)) r (message ctx) (regexCache (world l2))
            = (Inr (Some l), rc')" by simp
    with c2 have "eval_rule rt now ctx r l2 =
         Continue (l2\<lparr>results := results l2 @ [nonmatch_result now now r],
                     world := (world l2)\<lparr>regexCache := rc', thresholdTracker := tr2\<rparr>\<rparr>)"
      by (simp add: eval_rule_def threshold_gate_def)
    with gated(3) assms t2 show ?thesis by (simp add: same_loop_def same_for_def)
  next
    case (fired l rc' tr' st' w2)
    obtain tr2 where c2: "ThresholdTracker_check now r (tokenId ctx) (conversationId ctx) (accountId ctx)
         (thresholdTracker (world l2)) = (True, tr2)" and t2: "tr' ?key = tr2 ?key"
      using chk fired(2)
      by (cases "ThresholdTracker_check now r (tokenId ctx) (conversationId ctx) (accountId ctx)
         (thresholdTracker (world l2))") auto
    from sf t2 have sf': "same_for ?key ((world l1)\<lparr>regexCache := rc', thresholdTracker := tr'\<rparr>)
                           ((world l2)\<lparr>regexCache := rc', thresholdTracker := tr2\<rparr>)"
      by (simp add: same_for_def)
    obtain st2 v2 where u2: "updateState now r ctx (state_cur l2)
         ((world l2)\<lparr>regexCache := rc', thresholdTracker := tr2\<rparr>) = (st2, v2)"
      by (cases "updateState now r ctx (state_cur l2)
         ((world l2)\<lparr>regexCache := rc', thresholdTracker := tr2\<rparr>)")
    from updateState_same [OF sf', of now r "state_cur l1"] fired(3) u2 sc
    have e: "st' = st2" and sv: "same_for ?key w2 v2" by simp_all
    from run fired(1)
    have "run_stages rt (semanticMatcher (world l2)) r (message ctx) (regexCache (world l2))
            = (Inr (Some l), rc')" by simp
    with c2 u2 have "eval_rule rt now ctx r l2 =
         (if action r = Block \<and> severity r = Critical then Break else Continue)
           (l2\<lparr>results := results l2 @ [match_result now now r st2 l],
               state_cur := st2, world := v2\<rparr>)"
      by (simp add: eval_rule_def threshold_gate_def Let_def)
    with fired(4) e sv rs show ?thesis by (simp add: same_loop_def)
  qed
qed

lemma eval_loop_same:
  "same_loop (getKey (tokenId ctx) (conversationId ctx) (accountId ctx)) l1 l2 \<Longrightarrow>
     fst (eval_loop rt now ctx rs l1) = fst (eval_loop rt now ctx rs l2) \<and>
     same_loop (getKey (tokenId ctx) (conversationId ctx) (accountId ctx))
       (snd (eval_loop rt now ctx rs l1)) (snd (eval_loop rt now ctx rs l2))"
proof (induction rs arbitrary: l1 l2)
  case Nil
  then show ?case by simp
next
  case (Cons r rs)
  note s = eval_rule_same [OF Cons.prems, of rt now r]
  show ?case
  proof (cases "eval_rule rt now ctx r l1")
    case (Continue a1)
    with s obtain a2 where c2: "eval_rule rt now ctx r l2 = Continue a2"
      by (cases "eval_rule rt now ctx r l2") auto
    with s Continue have "same_loop (getKey (tokenId ctx) (conversationId ctx) (accountId ctx)) a1 a2"
      by simp
    from Cons.IH [OF this] Continue c2 show ?thesis by simp
  next
    case (Break a1)
    with s obtain a2 where c2: "eval_rule rt now ctx r l2 = Break a2"
      by (cases "eval_rule rt now ctx r l2") auto
    with s Break show ?thesis by simp
  next
    case (Throw e a1)
    with s obtain a2 where c2: "eval_rule rt now ctx r l2 = Throw e a2"
      by (cases "eval_rule rt now ctx r l2") auto
    with s Throw show ?thesis by simp
  qed
qed

lemma hydrate_same:
  assumes "same_for (getKey (tokenId ctx) (conversationId ctx) (accountId ctx)) w1 w2"
  shows "fst (hydrate now ctx w1) = fst (hydrate now ctx w2) \<and>
         same_for (getKey (tokenId ctx) (conversationId ctx) (accountId ctx))
           (snd (hydrate now ctx w1)) (snd (hydrate now ctx w2))"
proof (cases "state_ctx ctx")
  case (Some st)
  with assms show ?thesis by (simp add: hydrate_def)
next
  case None
  let ?key = "getKey (tokenId ctx) (conversationId ctx) (accountId ctx)"
  let ?g1 = "StateCache_get now (tokenId ctx) (conversationId ctx) (accountId ctx) (stateCache w1)"
  let ?g2 = "StateCache_get now (tokenId ctx) (conversationId ctx) (accountId ctx) (stateCache w2)"
  from assms have m: "map_of (cache (stateCache w1)) ?key = map_of (cache (stateCache w2)) ?key"
    and t: "ttl_cache (stateCache w1) = ttl_cache (stateCache w2)"
    and h: "heap w1 = heap w2" and p: "stateProvider w1 = stateProvider w2"
    by (simp_all add: same_for_def)
  from m t have g: "fst ?g1 = fst ?g2 \<and>
      map_of (cache (snd ?g1)) ?key = map_of (cache (snd ?g2)) ?key \<and>
      ttl_cache (snd ?g1) = ttl_cache (snd ?g2)"
    by (auto simp: StateCache_get_def Let_def update_conv' split: option.splits)
  have s: "map_of (cache (StateCache_set now (tokenId ctx) (conversationId ctx) st (accountId ctx) sc1)) ?key
         = map_of (cache (StateCache_set now (tokenId ctx) (conversationId ctx) st (accountId ctx) sc2)) ?key \<and>
         ttl_cache (StateCache_set now (tokenId ctx) (conversationId ctx) st (accountId ctx) sc1) = ttl_cache sc1"
    for st sc1 sc2
    by (simp add: StateCache_set_def Let_def update_conv')
  obtain c1 s1 where g1: "?g1 = (c1, s1)" by (cases ?g1)
  obtain c2 s2 where g2: "?g2 = (c2, s2)" by (cases ?g2)
  from g g1 g2 have cc: "c1 = c2" and mm: "map_of (cache s1) ?key = map_of (cache s2) ?key"
    and tt: "ttl_cache s1 = ttl_cache s2" by simp_all
  show ?thesis
  proof (cases c1)
    case (Some st)
    with None g1 g2 cc [symmetric] mm tt assms show ?thesis
      by (simp add: hydrate_def same_for_def Let_def)
  next
    case N: None
    show ?thesis
    proof (cases "case stateProvider w1 of None \<Rightarrow> Inr None
                  | Some p \<Rightarrow> provider_get p (tokenId ctx) (conversationId ctx) (accountId ctx)")
      case (Inl e)
      with None N g1 g2 cc [symmetric] mm tt assms p show ?thesis
        by (simp add: hydrate_def same_for_def Let_def)
    next
      case (Inr so)
      show ?thesis
      proof (cases so)
        case (Some st)
        with Inr None N g1 g2 cc [symmetric] mm tt assms p show ?thesis
          by (simp add: hydrate_def same_for_def Let_def)
      next
        case M: None
        with Inr None N g1 g2 cc [symmetric] mm tt assms p h s [of _ s1 s2] s [of _ s2 s1] show ?thesis
          by (simp add: hydrate_def same_for_def Let_def alloc_flags_def alloc_history_def
                alloc_state_def)
      qed
    qed
  qed
qed

lemma flush_states_error_same:
  "fst (flush_states p rs sv1) = fst (flush_states p rs sv2)"
  by (induction rs arbitrary: sv1 sv2) (auto split: option.splits)

lemma evaluate_same:
  assumes "same_for (getKey (tokenId ctx) (conversationId ctx) (accountId ctx)) w1 w2"
  shows "fst (evaluate rt now ctx w1) = fst (evaluate rt now ctx w2) \<and>
         same_for (getKey (tokenId ctx) (conversationId ctx) (accountId ctx))
           (snd (evaluate rt now ctx w1)) (snd (evaluate rt now ctx w2))"
proof -
  let ?key = "getKey (tokenId ctx) (conversationId ctx) (accountId ctx)"
  obtain x1 v1 where h1: "hydrate now ctx w1 = (x1, v1)" by (cases "hydrate now ctx w1")
  obtain x2 v2 where h2': "hydrate now ctx w2 = (x2, v2)" by (cases "hydrate now ctx w2")
  from hydrate_same [OF assms, of now] h1 h2' have x: "x2 = x1" and sv: "same_for ?key v1 v2"
    by simp_all
  from h2' x have h2: "hydrate now ctx w2 = (x1, v2)" by simp
  show ?thesis
  proof (cases x1)
    case (Inl e)
    with h1 h2 sv show ?thesis by (simp add: evaluate_def)
  next
    case (Inr st)
    let ?rs = "preFilterRules (rules v1) (heap v1) st"
    let ?l1 = "\<lparr>results = [], state_cur = st, world = v1\<rparr>"
    let ?l2 = "\<lparr>results = [], state_cur = st, world = v2\<rparr>"
    from sv have rs: "preFilterRules (rules v2) (heap v2) st = ?rs"
      by (simp add: same_for_def)
    from sv have "same_loop ?key ?l1 ?l2" by (simp add: same_loop_def)
    note lp = eval_loop_same [OF this, of rt now ?rs]
    obtain e1 a1 where l1: "eval_loop rt now ctx ?rs ?l1 = (e1, a1)"
      by (cases "eval_loop rt now ctx ?rs ?l1")
    obtain e2 a2 where l2': "eval_loop rt now ctx ?rs ?l2 = (e2, a2)"
      by (cases "eval_loop rt now ctx ?rs ?l2")
    from lp l1 l2' have ee: "e2 = e1" and r: "results a2 = results a1"
      and sa: "same_for ?key (world a1) (world a2)"
      by (simp_all add: same_loop_def)
    from sa have pp: "stateProvider (world a2) = stateProvider (world a1)"
      by (simp add: same_for_def)
    from sa have ss: "same_for ?key ((world a1)\<lparr>saved := s1\<rparr>) ((world a2)\<lparr>saved := s2\<rparr>)"
      for s1 s2
      by (simp add: same_for_def)
    from l2' ee have l2: "eval_loop rt now ctx ?rs ?l2 = (e1, a2)" by simp
    show ?thesis
    proof (cases e1)
      case (Some e)
      with h1 h2 Inr rs l1 l2 sa show ?thesis by (simp add: evaluate_def)
    next
      case None
      show ?thesis
      proof (cases "stateProvider (world a1)")
        case N: None
        with None h1 h2 Inr rs l1 l2 r pp sa show ?thesis by (simp add: evaluate_def)
      next
        case (Some p)
        obtain f1 s1 where f1: "flush_states p (results a1) (saved (world a1)) = (f1, s1)"
          by (cases "flush_states p (results a1) (saved (world a1))")
        obtain f2 s2 where f2': "flush_states p (results a1) (saved (world a2)) = (f2, s2)"
          by (cases "flush_states p (results a1) (saved (world a2))")
        from flush_states_error_same [of p "results a1" "saved (world a1)" "saved (world a2)"] f1 f2'
        have "f2 = f1" by simp
        with f2' have f2: "flush_states p (results a1) (saved (world a2)) = (f1, s2)" by simp
        from Some None h1 h2 Inr rs l1 l2 r pp f1 f2 ss [of s1 s2] show ?thesis
          by (cases f1) (simp_all add: evaluate_def)
      qed
    qed
  qed
qed

text \<open>
  Claim C6, for tuples with different keys. Let the key
  \<open>tokenId:conversationId:(accountId or '')\<close> of a tuple differ from the key of the
  tuple that \<^verbatim>\<open>evaluate\<close> is called for. Then the call leaves the threshold counters
  of that tuple as they were; it leaves the tuple's entry in the state cache as it was,
  provided the cache has room for the evaluated tuple (a full cache evicts its oldest
  entry, whichever tuple it belongs to); it writes into no existing state object; and
  it reads no cache entry and no counter of another key: on two engines with the same
  rules, collaborators, regex cache and object store, and with the same cache entry and
  the same counters for the key of the call, whatever their cache entries and counters
  for other keys, the call has the same outcome and leaves engines that again agree in
  all of this, so that nothing of another key has reached the results, the object store
  or the cache entry and counters of the call's own key. The keys of two tuples differ
  whenever their token ids and conversation ids contain no colon and the tuples differ,
  an absent account id counting as the empty one.
\<close>

theorem distinct_keys_isolated:
  assumes "getKey tok conv acct \<noteq> getKey (tokenId ctx) (conversationId ctx) (accountId ctx)"
  shows "thresholdTracker (snd (evaluate rt now ctx w)) (getKey tok conv acct)
           = thresholdTracker w (getKey tok conv acct) \<and>
         (has_room (stateCache w) (getKey (tokenId ctx) (conversationId ctx) (accountId ctx)) \<longrightarrow>
            cache_entry (stateCache (snd (evaluate rt now ctx w))) tok conv acct
              = cache_entry (stateCache w) tok conv acct) \<and>
         heap_extends (heap w) (heap (snd (evaluate rt now ctx w))) \<and>
         (\<forall>w2. same_for (getKey (tokenId ctx) (conversationId ctx) (accountId ctx)) w w2 \<longrightarrow>
            fst (evaluate rt now ctx w2) = fst (evaluate rt now ctx w) \<and>
            same_for (getKey (tokenId ctx) (conversationId ctx) (accountId ctx))
              (snd (evaluate rt now ctx w)) (snd (evaluate rt now ctx w2))) \<and>
         (\<forall>t1 c1 a1 t2 c2 a2.
            CHR '':'' \<notin> set t1 \<and> CHR '':'' \<notin> set c1 \<and> CHR '':'' \<notin> set t2 \<and> CHR '':'' \<notin> set c2 \<and>
            (t1, c1, or_empty a1) \<noteq> (t2, c2, or_empty a2) \<longrightarrow>
            getKey t1 c1 a1 \<noteq> getKey t2 c2 a2)"
proof -
  note u = evaluate_untouched [OF assms, of w rt now]
  have A: "thresholdTracker (snd (evaluate rt now ctx w)) (getKey tok conv acct)
           = thresholdTracker w (getKey tok conv acct)"
    using u by (simp add: untouched_def)
  have B: "cache_entry (stateCache (snd (evaluate rt now ctx w))) tok conv acct
              = cache_entry (stateCache w) tok conv acct"
    if "has_room (stateCache w) (getKey (tokenId ctx) (conversationId ctx) (accountId ctx))"
    using u that by (simp add: untouched_def cache_entry_def)
  have C: "heap_extends (heap w) (heap (snd (evaluate rt now ctx w)))"
    by (rule evaluate_extends)
  have D: "fst (evaluate rt now ctx w2) = fst (evaluate rt now ctx w) \<and>
           same_for (getKey (tokenId ctx) (conversationId ctx) (accountId ctx))
              (snd (evaluate rt now ctx w)) (snd (evaluate rt now ctx w2))"
    if "same_for (getKey (tokenId ctx) (conversationId ctx) (accountId ctx)) w w2" for w2
    using evaluate_same [OF that, of rt now] by simp
  have E: "getKey t1 c1 a1 \<noteq> getKey t2 c2 a2"
    if "CHR '':'' \<notin> set t1 \<and> CHR '':'' \<notin> set c1 \<and> CHR '':'' \<notin> set t2 \<and> CHR '':'' \<notin> set c2 \<and>
            (t1, c1, or_empty a1) \<noteq> (t2, c2, or_empty a2)" for t1 c1 a1 t2 c2 a2
    using that getKey_inj [of t1 c1 t2 c2 a1 a2] by auto
  from A B C D E show ?thesis by blast
qed

theorem distinct_keys_isolated_witness:
  "getKey ''user1'' ''conv1'' None
     \<noteq> getKey (tokenId other_ctx) (conversationId other_ctx) (accountId other_ctx) \<and>
   has_room (stateCache (snd first_call))
     (getKey (tokenId other_ctx) (conversationId other_ctx) (accountId other_ctx)) \<and>
   cache_entry (stateCache (snd (evaluate lit_runtime 2000 other_ctx (snd first_call))))
     ''user1'' ''conv1'' None = Some \<lparr>state_ce = 5, lastAccess = 1000, dirty = True\<rparr> \<and>
   same_for (getKey (tokenId other_ctx) (conversationId other_ctx) (accountId other_ctx))
     (snd first_call) forgetful_engine \<and>
   cache_entry (stateCache (snd first_call)) ''user1'' ''conv1'' None
     \<noteq> cache_entry (stateCache forgetful_engine) ''user1'' ''conv1'' None \<and>
   fst (evaluate lit_runtime 2000 other_ctx forgetful_engine)
     = fst (evaluate lit_runtime 2000 other_ctx (snd first_call)) \<and>
   same_for (getKey (tokenId other_ctx) (conversationId other_ctx) (accountId other_ctx))
     (snd (evaluate lit_runtime 2000 other_ctx (snd first_call)))
     (snd (evaluate lit_runtime 2000 other_ctx forgetful_engine)) \<and>
   cache_entry (stateCache (snd (evaluate lit_runtime 2000 other_ctx forgetful_engine)))
     ''user1'' ''conv2'' None
     = cache_entry (stateCache (snd (evaluate lit_runtime 2000 other_ctx (snd first_call))))
         ''user1'' ''conv2'' None \<and>
   result_ids (evaluate lit_runtime 2000 other_ctx (snd first_call)) = Some []"
proof -
  let ?k2 = "getKey (tokenId other_ctx) (conversationId other_ctx) (accountId other_ctx)"
  have k: "?k2 = ''user1:conv2:''"
    by (simp add: other_ctx_def ctx_of_def getKey_def or_empty_def)
  have k': "getKey ''user1'' ''conv2'' None = ?k2"
    by (simp add: other_ctx_def ctx_of_def getKey_def or_empty_def)
  have ne: "getKey ''user1'' ''conv1'' None \<noteq> ?k2"
    by (simp add: k) (simp add: getKey_def or_empty_def)
  have room: "has_room (stateCache (snd first_call)) ?k2"
    and ce: "cache_entry (stateCache (snd first_call)) ''user1'' ''conv1'' None
               = Some \<lparr>state_ce = 5, lastAccess = 1000, dirty = True\<rparr>"
    and cf: "cache_entry (stateCache forgetful_engine) ''user1'' ''conv1'' None = None"
    and sf: "same_for ?k2 (snd first_call) forgetful_engine"
    and r2: "result_ids (evaluate lit_runtime 2000 other_ctx (snd first_call)) = Some []"
    by (simp_all add: k has_room_def cache_entry_def same_for_def forgetful_engine_def
          StateCache_clear_def result_ids_def other_ctx_def call_defs scenario_defs
          engine_defs Let_def)
  from ce cf have df: "cache_entry (stateCache (snd first_call)) ''user1'' ''conv1'' None
     \<noteq> cache_entry (stateCache forgetful_engine) ''user1'' ''conv1'' None"
    by simp
  note t = distinct_keys_isolated [OF ne, of lit_runtime 2000 "snd first_call"]
  from t room ce
  have c2: "cache_entry (stateCache (snd (evaluate lit_runtime 2000 other_ctx (snd first_call))))
     ''user1'' ''conv1'' None = Some \<lparr>state_ce = 5, lastAccess = 1000, dirty = True\<rparr>"
    by simp
  from t sf have eq: "fst (evaluate lit_runtime 2000 other_ctx forgetful_engine)
     = fst (evaluate lit_runtime 2000 other_ctx (snd first_call))"
    and sr: "same_for ?k2 (snd (evaluate lit_runtime 2000 other_ctx (snd first_call)))
     (snd (evaluate lit_runtime 2000 other_ctx forgetful_engine))"
    by blast+
  from sr have own: "cache_entry (stateCache (snd (evaluate lit_runtime 2000 other_ctx forgetful_engine)))
     ''user1'' ''conv2'' None
     = cache_entry (stateCache (snd (evaluate lit_runtime 2000 other_ctx (snd first_call))))
         ''user1'' ''conv2'' None"
    unfolding cache_entry_def k' by (simp add: same_for_def)
  from ne room c2 sf df eq sr own r2 show ?thesis by (intro conjI)
qed

text \<open>
  Claim C6 as stated fails for tuples whose keys coincide. The tuples
  \<open>('a:b', 'c')\<close> and \<open>('a', 'b:c')\<close> differ and have the same key \<open>a:b:c:\<close>, as have a
  tuple without account id and the same tuple with the empty account id. A call for the
  first tuple sets a flag; the next call, for the second tuple, finds that flag set and
  fires the rule that checks it, which it does not on an engine that has not seen the
  first tuple.
\<close>

theorem colliding_keys_share_state:
  "(''a:b'', ''c'', None :: string option) \<noteq> (''a'', ''b:c'', None) \<and>
   getKey ''a:b'' ''c'' None = getKey ''a'' ''b:c'' None \<and>
   getKey ''a'' ''c'' None = getKey ''a'' ''c'' (Some '''') \<and>
   result_ids colon_first_call = Some [''stage-1-setter''] \<and>
   result_ids colon_second_call = Some [''stage-2-checker''] \<and>
   result_ids (evaluate lit_runtime 2000 (ctx_of ''a'' ''b:c'' None ''Enter your account details'')
                 checker_engine) = Some []"
  by (simp add: result_ids_def colon_first_call_def colon_second_call_def call_defs
        scenario_defs engine_defs Let_def)

end
